theory Spec2Isabelle
  imports Complex_Main "HOL-Library.Word" "HOL-Library.Multiset"
begin

section \<open>JavaScript values\<close>

text \<open>
  A JavaScript string is a sequence of 16-bit code units: \<open>length\<close>, \<open>substring\<close>,
  the relational operators and a regular expression without the \<open>u\<close> flag all work on
  code units.
\<close>

type_synonym jschar = "16 word"
type_synonym jsstring = "jschar list"

definition js :: "string \<Rightarrow> jsstring" where
  \<comment> \<open>a string literal of the source, as code units\<close>
  "js s = map of_char s"

text \<open>
  The numbers that occur in the comparator are integers, the two infinities and NaN.
  A finite value is kept as the integer it denotes.
\<close>

datatype jsnum = Finite int | PosInf | NegInf | NaN

function bitLength :: "int \<Rightarrow> nat" where
  \<comment> \<open>the number of binary digits of a positive integer\<close>
  "bitLength n = (if n \<le> 0 then 0 else Suc (bitLength (n div 2)))"
  by pat_completeness auto
termination
  by (relation "measure nat") auto

declare bitLength.simps [simp del]

definition roundDouble :: "int \<Rightarrow> jsnum" where
  \<comment> \<open>the Number value of an integer: exact below \<open>2 ^ 53\<close>, otherwise rounded to 53
      significant bits, ties to even, and infinite from \<open>2 ^ 1024\<close> on. (For a literal of
      more than 20 significant digits the language also lets an engine round from the first
      20; the model rounds the exact value.)\<close>
  "roundDouble n =
     (let m = \<bar>n\<bar> in
      if m < 2 ^ 53 then Finite n
      else
        let e = bitLength m - 53;
            q = m div 2 ^ e;
            r = m mod 2 ^ e;
            h = 2 ^ (e - 1);
            q' = (if h < r \<or> (r = h \<and> odd q) then q + 1 else q);
            v = q' * 2 ^ e
        in if 2 ^ 1024 \<le> v then (if n < 0 then NegInf else PosInf)
           else Finite (sgn n * v))"

fun jsSub :: "jsnum \<Rightarrow> jsnum \<Rightarrow> jsnum" where
  \<comment> \<open>the binary \<open>-\<close> on numbers\<close>
  "jsSub NaN _ = NaN"
| "jsSub _ NaN = NaN"
| "jsSub (Finite x) (Finite y) = roundDouble (x - y)"
| "jsSub (Finite x) PosInf = NegInf"
| "jsSub (Finite x) NegInf = PosInf"
| "jsSub PosInf PosInf = NaN"
| "jsSub PosInf _ = PosInf"
| "jsSub NegInf NegInf = NaN"
| "jsSub NegInf _ = NegInf"

fun truthy :: "jsnum \<Rightarrow> bool" where
  \<comment> \<open>ToBoolean of a number: false for 0 and NaN\<close>
  "truthy (Finite n) = (n \<noteq> 0)"
| "truthy PosInf = True"
| "truthy NegInf = True"
| "truthy NaN = False"

fun isNaN :: "jsnum \<Rightarrow> bool" where
  "isNaN NaN = True"
| "isNaN _ = False"

fun jsPositive :: "jsnum \<Rightarrow> bool" where
  \<comment> \<open>\<open>v > 0\<close>\<close>
  "jsPositive (Finite n) = (0 < n)"
| "jsPositive PosInf = True"
| "jsPositive _ = False"

fun jsNegative :: "jsnum \<Rightarrow> bool" where
  \<comment> \<open>\<open>v < 0\<close>\<close>
  "jsNegative (Finite n) = (n < 0)"
| "jsNegative NegInf = True"
| "jsNegative _ = False"

fun isInteger :: "jsnum \<Rightarrow> bool" where
  \<comment> \<open>\<open>Number.isInteger\<close>\<close>
  "isInteger (Finite n) = True"
| "isInteger _ = False"

fun jsNegate :: "jsnum \<Rightarrow> jsnum" where
  \<comment> \<open>the unary \<open>-\<close>\<close>
  "jsNegate (Finite n) = Finite (- n)"
| "jsNegate PosInf = NegInf"
| "jsNegate NegInf = PosInf"
| "jsNegate NaN = NaN"

subsection \<open>Strings to numbers\<close>

definition isDigit :: "jschar \<Rightarrow> bool" where
  \<comment> \<open>the class \<open>\d\<close>: the ASCII digits\<close>
  "isDigit c = (0x30 \<le> c \<and> c \<le> 0x39)"

definition isWhiteSpace :: "jschar \<Rightarrow> bool" where
  \<comment> \<open>WhiteSpace and LineTerminator code units, which ToNumber strips at both ends\<close>
  "isWhiteSpace c =
     (c = 0x09 \<or> c = 0x0A \<or> c = 0x0B \<or> c = 0x0C \<or> c = 0x0D \<or> c = 0x20 \<or> c = 0xA0
      \<or> c = 0x1680 \<or> (0x2000 \<le> c \<and> c \<le> 0x200A) \<or> c = 0x2028 \<or> c = 0x2029
      \<or> c = 0x202F \<or> c = 0x205F \<or> c = 0x3000 \<or> c = 0xFEFF)"

definition trim :: "jsstring \<Rightarrow> jsstring" where
  "trim s = rev (dropWhile isWhiteSpace (rev (dropWhile isWhiteSpace s)))"

definition digitsValue :: "jsstring \<Rightarrow> int" where
  \<comment> \<open>the decimal value of a run of digits\<close>
  "digitsValue s = foldl (\<lambda>acc c. 10 * acc + uint (c - 0x30)) 0 s"

definition toNumber :: "jsstring \<Rightarrow> jsnum" where
  \<comment> \<open>ToNumber on the strings the chunk pattern yields: a run of digits, or a string
      with no digit at all. Of the latter the numeric grammar accepts only white space
      (value 0) and an optionally signed \<open>Infinity\<close>, with white space around it.\<close>
  "toNumber s =
     (if s \<noteq> [] \<and> list_all isDigit s then roundDouble (digitsValue s)
      else
        let t = trim s in
        if t = [] then Finite 0
        else if t = js ''Infinity'' \<or> t = js ''+Infinity'' then PosInf
        else if t = js ''-Infinity'' then NegInf
        else NaN)"

section \<open>Menu: positioning\<close>

text \<open>
  Coordinates and sizes are JavaScript numbers, computed here with exact rationals.
  \<open>window'\<close> holds what the browser reports to \<open>positionContent\<close>: the size of the window,
  the width of a scrollbar and the size of the menu's container.
\<close>

record window' =
  innerWidth :: rat
  innerHeight :: rat
  scrollbarWidth :: rat
  contentWidth :: rat
  contentHeight :: rat

record css =
  cssWidth :: rat
  cssHeight :: rat
  cssLeft :: rat
  cssTop :: rat

definition positionContent :: "window' \<Rightarrow> rat \<Rightarrow> rat \<Rightarrow> rat option \<Rightarrow> css" where
  \<comment> \<open>the \<open>css\<close> call of \<open>positionContent\<close>; \<open>parent\<close> is the width of the parent menu's
      container when a parent is given\<close>
  "positionContent env x y parent =
     (let winWidth = innerWidth env;
          winHeight = innerHeight env;
          scrollbarSize = scrollbarWidth env;
          parentWidth = (case parent of None \<Rightarrow> 0 | Some w \<Rightarrow> w);
          widthOverflow = (if winHeight < contentHeight env then scrollbarSize else 0);
          heightOverflow = (if winWidth < contentWidth env then scrollbarSize else 0);
          width = min winWidth (contentWidth env + widthOverflow);
          height = min winHeight (contentHeight env + heightOverflow);
          right = winWidth - x;
          bottom = winHeight - y;
          left = (if right < width \<and> x - parentWidth > right then x - width - parentWidth else x);
          top = (if bottom < height
                 then (if y > height
                       then (y - height) + (if parent \<noteq> None then 30 else 0)
                       else y - (height - bottom))
                 else y)
      in \<lparr>cssWidth = width, cssHeight = height, cssLeft = left, cssTop = top\<rparr>)"

section \<open>Menu: submenus\<close>

text \<open>
  Menus are objects that refer to each other: an item refers to its submenu and a menu to
  the submenu it has open. The model keeps them in a store, from references to menus,
  with the items, the field \<open>subMenu\<close>, the highlighted item and whether the container is
  in the document.
\<close>

type_synonym ref = nat

datatype itemType = Normal | Separator | Submenu

record menuItem =
  itemType :: "itemType option"
  label :: "jsstring option"
  submenu :: "ref option"
  click :: bool

record menu =
  menuItems :: "menuItem list"
  subMenu :: "ref option"
  highlighted :: "nat option"
  attached :: bool

type_synonym heap = "ref \<Rightarrow> menu"

partial_function (option) hide :: "ref \<Rightarrow> heap \<Rightarrow> heap option" where
  \<comment> \<open>\<open>hide\<close>: the container leaves the document, then \<open>hideSubMenu\<close> runs, which
      hides the open submenu in turn and deletes the field; \<open>None\<close> when the recursion
      does not return\<close>
  "hide m h =
     (let h1 = h(m := (h m)\<lparr>attached := False\<rparr>) in
      case subMenu (h1 m) of
        None \<Rightarrow> Some h1
      | Some s \<Rightarrow> Option.bind (hide s h1) (\<lambda>h2. Some (h2(m := (h2 m)\<lparr>subMenu := None\<rparr>))))"

definition hideSubMenu :: "ref \<Rightarrow> heap \<Rightarrow> heap option" where
  \<comment> \<open>\<open>if (this.subMenu) { this.subMenu.hide(); delete this.subMenu }\<close>\<close>
  "hideSubMenu m h =
     (case subMenu (h m) of
        None \<Rightarrow> Some h
      | Some s \<Rightarrow> Option.bind (hide s h) (\<lambda>h2. Some (h2(m := (h2 m)\<lparr>subMenu := None\<rparr>))))"

definition show' :: "ref \<Rightarrow> heap \<Rightarrow> heap option" where
  \<comment> \<open>\<open>show\<close>: hide, render the items, append the container to the glass pane; the
      position computed by \<open>positionContent\<close> does not act on the fields kept here\<close>
  "show' m h = Option.bind (hide m h) (\<lambda>h1. Some (h1(m := (h1 m)\<lparr>attached := True\<rparr>)))"

definition showSubMenu :: "ref \<Rightarrow> ref \<Rightarrow> heap \<Rightarrow> heap option" where
  \<comment> \<open>\<open>subMenu.show(x, top - 5, this); this.subMenu = subMenu\<close>\<close>
  "showSubMenu m s h = Option.bind (show' s h) (\<lambda>h1. Some (h1(m := (h1 m)\<lparr>subMenu := Some s\<rparr>)))"

definition highlight :: "ref \<Rightarrow> nat option \<Rightarrow> heap \<Rightarrow> heap" where
  "highlight m el h = h(m := (h m)\<lparr>highlighted := el\<rparr>)"

definition hideAll :: "heap \<Rightarrow> heap" where
  \<comment> \<open>the glass pane is emptied and removed: every container in it leaves the document\<close>
  "hideAll h = (\<lambda>m. (h m)\<lparr>attached := False\<rparr>)"

definition hasHandlers :: "heap \<Rightarrow> ref \<Rightarrow> nat \<Rightarrow> bool" where
  \<comment> \<open>\<open>createMenuItem\<close> binds handlers on every item but a separator\<close>
  "hasHandlers h m i =
     (i < length (menuItems (h m)) \<and> itemType (menuItems (h m) ! i) \<noteq> Some Separator)"

definition mouseover :: "ref \<Rightarrow> nat \<Rightarrow> heap \<Rightarrow> heap option" where
  \<comment> \<open>the \<open>mouseover\<close> handler of the item at index \<open>i\<close> of menu \<open>m\<close>\<close>
  "mouseover m i h =
     (if \<not> hasHandlers h m i then Some h
      else
        let item = menuItems (h m) ! i;
            h1 = highlight m (Some i) h
        in case submenu item of
             Some s \<Rightarrow>
               Option.bind (if Some s \<noteq> subMenu (h1 m) then hideSubMenu m h1 else Some h1)
                 (showSubMenu m s)
           | None \<Rightarrow> hideSubMenu m h1)"

definition mouseleave :: "ref \<Rightarrow> nat \<Rightarrow> heap \<Rightarrow> heap" where
  \<comment> \<open>the \<open>mouseleave\<close> handler: the highlight stays on the item of the open submenu\<close>
  "mouseleave m i h =
     (if \<not> hasHandlers h m i then h
      else if subMenu (h m) = None \<or> subMenu (h m) \<noteq> submenu (menuItems (h m) ! i)
      then highlight m None h else h)"

definition click' :: "ref \<Rightarrow> nat \<Rightarrow> heap \<Rightarrow> heap" where
  \<comment> \<open>the item's own handler runs first; what it does is outside the model\<close>
  "click' m i h =
     (if \<not> hasHandlers h m i then h
      else if click (menuItems (h m) ! i) then hideAll h else h)"

datatype event =
  Show ref | Hide ref | HideAll | MouseOver ref nat | MouseLeave ref nat | Click ref nat

fun step :: "event \<Rightarrow> heap \<Rightarrow> heap option" where
  "step (Show m) h = show' m h"
| "step (Hide m) h = hide m h"
| "step HideAll h = Some (hideAll h)"
| "step (MouseOver m i) h = mouseover m i h"
| "step (MouseLeave m i) h = Some (mouseleave m i h)"
| "step (Click m i) h = Some (click' m i h)"

fun run :: "event list \<Rightarrow> heap \<Rightarrow> heap option" where
  \<comment> \<open>a sequence of events\<close>
  "run [] h = Some h"
| "run (e # es) h = Option.bind (step e h) (run es)"

fun subMenuChain :: "nat \<Rightarrow> heap \<Rightarrow> ref \<Rightarrow> bool" where
  \<comment> \<open>following \<open>subMenu\<close> from \<open>m\<close> ends after \<open>n\<close> steps\<close>
  "subMenuChain 0 h m = (subMenu (h m) = None)"
| "subMenuChain (Suc n) h m = (case subMenu (h m) of None \<Rightarrow> False | Some s \<Rightarrow> subMenuChain n h s)"

definition chains :: "heap \<Rightarrow> bool" where
  \<comment> \<open>no cycle of \<open>subMenu\<close> references: from every menu they end\<close>
  "chains h = (\<forall>m. \<exists>n. subMenuChain n h m)"

definition isChild :: "heap \<Rightarrow> ref \<Rightarrow> ref \<Rightarrow> bool" where
  \<comment> \<open>\<open>s\<close> is the submenu of an item of \<open>m\<close>\<close>
  "isChild h m s = (\<exists>it\<in>set (menuItems (h m)). submenu it = Some s)"

definition wellFormed :: "heap \<Rightarrow> bool" where
  \<comment> \<open>no menu is the submenu of items of two menus, or of an item of its own\<close>
  "wellFormed h =
     ((\<forall>m m' s. isChild h m s \<and> isChild h m' s \<longrightarrow> m = m') \<and> (\<forall>m. \<not> isChild h m m))"

definition oneSubmenu :: "heap \<Rightarrow> bool" where
  \<comment> \<open>a submenu of \<open>m\<close> that is in the document is the one in the field \<open>subMenu\<close>\<close>
  "oneSubmenu h = (\<forall>m s. isChild h m s \<and> attached (h s) \<longrightarrow> subMenu (h m) = Some s)"

definition hidden :: "heap \<Rightarrow> heap \<Rightarrow> bool" where
  \<comment> \<open>what hiding may change: containers leave the document, and a \<open>subMenu\<close> field is
      deleted only once the menu it held has left\<close>
  "hidden h h' =
     ((\<forall>x. menuItems (h' x) = menuItems (h x))
      \<and> (\<forall>x. attached (h' x) \<longrightarrow> attached (h x))
      \<and> (\<forall>x. subMenu (h' x) = subMenu (h x)
               \<or> (subMenu (h' x) = None \<and> (\<forall>s. subMenu (h x) = Some s \<longrightarrow> \<not> attached (h' s)))))"

definition userEvent :: "heap \<Rightarrow> event \<Rightarrow> bool" where
  \<comment> \<open>the client shows top-level menus only; a submenu is shown by its parent\<close>
  "userEvent h e = (case e of Show m \<Rightarrow> (\<forall>p. \<not> isChild h p m) | _ \<Rightarrow> True)"

definition fresh :: "heap \<Rightarrow> bool" where
  \<comment> \<open>as constructed: nothing shown\<close>
  "fresh h = (\<forall>m. subMenu (h m) = None \<and> \<not> attached (h m))"

definition reachable :: "heap \<Rightarrow> bool" where
  \<comment> \<open>reached from well-formed menus, as constructed, by a sequence of events\<close>
  "reachable h =
     (\<exists>h0 es. fresh h0 \<and> wellFormed h0 \<and> list_all (userEvent h0) es \<and> run es h0 = Some h)"

definition menuInv :: "heap \<Rightarrow> bool" where
  \<comment> \<open>what every event preserves\<close>
  "menuInv h = (wellFormed h \<and> chains h \<and> oneSubmenu h)"

definition sameItems :: "heap \<Rightarrow> heap \<Rightarrow> bool" where
  \<comment> \<open>no event changes the items of a menu\<close>
  "sameItems h h' = (\<forall>x. menuItems (h' x) = menuItems (h x))"

definition exampleMenus :: heap where
  \<comment> \<open>a menu with two submenu items and a plain item, and its two submenus\<close>
  "exampleMenus =
     (\<lambda>_. \<lparr>menuItems = [], subMenu = None, highlighted = None, attached = False\<rparr>)
       (0 := \<lparr>menuItems =
                [\<lparr>itemType = Some Submenu, label = Some (js ''Open''), submenu = Some 1, click = False\<rparr>,
                 \<lparr>itemType = Some Submenu, label = Some (js ''Export''), submenu = Some 2, click = False\<rparr>,
                 \<lparr>itemType = Some Normal, label = Some (js ''Close''), submenu = None, click = True\<rparr>],
              subMenu = None, highlighted = None, attached = False\<rparr>,
        1 := \<lparr>menuItems =
                [\<lparr>itemType = Some Normal, label = Some (js ''File''), submenu = None, click = True\<rparr>],
              subMenu = None, highlighted = None, attached = False\<rparr>,
        2 := \<lparr>menuItems =
                [\<lparr>itemType = Some Normal, label = Some (js ''PDF''), submenu = None, click = True\<rparr>],
              subMenu = None, highlighted = None, attached = False\<rparr>)"

section \<open>DataGrid: the natural-order comparator\<close>

datatype cell = Undefined | Str jsstring | Element jsstring

fun toStr :: "cell \<Rightarrow> jsstring" where
  \<comment> \<open>licia's \<open>toStr\<close>: the empty string for a missing value, \<open>toString()\<close> otherwise; an
      element is kept as the text its \<open>toString()\<close> yields\<close>
  "toStr Undefined = []"
| "toStr (Str s) = s"
| "toStr (Element s) = s"

definition startWith :: "jsstring \<Rightarrow> jsstring \<Rightarrow> bool" where
  \<comment> \<open>licia's \<open>startWith\<close>: \<open>str.indexOf(prefix) === 0\<close>\<close>
  "startWith s p = (take (length p) s = p)"

definition chunk :: "jsstring \<Rightarrow> jsstring" where
  \<comment> \<open>\<open>s.match(/^\d+|^\D+/)[0]\<close> on a non-empty string: the longest leading run of digits,
      or else the longest leading run of non-digits\<close>
  "chunk s =
     (case s of
        [] \<Rightarrow> []
      | c # _ \<Rightarrow> if isDigit c then takeWhile isDigit s
                 else takeWhile (\<lambda>x. \<not> isDigit x) s)"

fun strLess :: "jsstring \<Rightarrow> jsstring \<Rightarrow> bool" where
  \<comment> \<open>\<open><\<close> on strings: lexicographic on code units\<close>
  "strLess [] [] = False"
| "strLess [] (y # ys) = True"
| "strLess (x # xs) [] = False"
| "strLess (x # xs) (y # ys) = (x < y \<or> (x = y \<and> strLess xs ys))"

lemma chunk_nonempty: "s \<noteq> [] \<Longrightarrow> chunk s \<noteq> []"
  by (cases s) (auto simp: chunk_def)

lemma length_chunk_le: "length (chunk s) \<le> length s"
  by (cases s) (auto simp: chunk_def intro: order_trans [OF length_takeWhile_le])

lemma substring_chunk_shorter:
  "s \<noteq> [] \<Longrightarrow> length (drop (length (chunk s)) s) < length s"
  using chunk_nonempty [of s] by (cases s) auto

lemma loop_variant:
  assumes "a \<noteq> []" "b \<noteq> []"
  shows "length (drop (length (chunk a)) a) + length (drop (length (chunk b)) b)
         < length a + length b"
  using substring_chunk_shorter [OF assms(1)] substring_chunk_shorter [OF assms(2)]
  by (rule add_less_mono)

function compareLoop :: "jsstring \<Rightarrow> jsstring \<Rightarrow> jsnum" where
  \<comment> \<open>the \<open>while (true)\<close> loop of \<open>naturalOrderComparator\<close>\<close>
  "compareLoop a b =
     (if a \<noteq> [] then
        (if b = [] then Finite 1
         else
           let chunka = chunk a;
               chunkb = chunk b;
               anum = \<not> isNaN (toNumber chunka);
               bnum = \<not> isNaN (toNumber chunkb)
           in
             if anum \<and> \<not> bnum then Finite (- 1)
             else if bnum \<and> \<not> anum then Finite 1
             else if anum \<and> bnum then
               (let diff = jsSub (toNumber chunka) (toNumber chunkb) in
                if truthy diff then diff
                else if length chunka \<noteq> length chunkb then
                  (if \<not> truthy (toNumber chunka) \<and> \<not> truthy (toNumber chunkb)
                   then Finite (int (length chunka) - int (length chunkb))
                   else Finite (int (length chunkb) - int (length chunka)))
                else compareLoop (drop (length chunka) a) (drop (length chunkb) b))
             else if chunka \<noteq> chunkb then
               (if strLess chunka chunkb then Finite (- 1) else Finite 1)
             else compareLoop (drop (length chunka) a) (drop (length chunkb) b))
      else
        (if b \<noteq> [] then Finite (- 1) else Finite 0))"
  by pat_completeness auto
termination
proof (relation "measure (\<lambda>(a, b). length a + length b)")
  show "wf (measure (\<lambda>(a, b). length a + length b))"
    by simp
next
  fix a b :: jsstring and x xa
  assume "a \<noteq> []" "b \<noteq> []" "x = chunk a" "xa = chunk b"
  then show "((drop (length x) a, drop (length xa) b), a, b)
             \<in> measure (\<lambda>(a, b). length a + length b)"
    using loop_variant [of a b] by simp
next
  fix a b :: jsstring and x xa
  assume "a \<noteq> []" "b \<noteq> []" "x = chunk a" "xa = chunk b"
  then show "((drop (length x) a, drop (length xa) b), a, b)
             \<in> measure (\<lambda>(a, b). length a + length b)"
    using loop_variant [of a b] by simp
qed

declare compareLoop.simps [simp del]

definition naturalOrderComparator :: "cell \<Rightarrow> cell \<Rightarrow> jsnum" where
  "naturalOrderComparator a0 b0 =
     (let a = toStr a0; b = toStr b0 in
      if startWith a (js ''_'') \<and> \<not> startWith b (js ''_'') then Finite 1
      else if startWith b (js ''_'') \<and> \<not> startWith a (js ''_'') then Finite (- 1)
      else compareLoop a b)"

section \<open>DataGrid: state\<close>

text \<open>
  Weights and the quotients computed from them are JavaScript numbers. The model computes
  them with exact rationals: the values coincide with the program's whenever its
  intermediate results are exact, as they are for integer weights whose products with the
  table width stay below \<open>2 ^ 53\<close>. A missing (\<open>undefined\<close>) weight is \<open>None\<close>.
\<close>

record column =
  colId :: jsstring
  title :: jsstring
  weight :: "rat option"
  sortable :: bool
  comparator :: "(cell \<Rightarrow> cell \<Rightarrow> jsnum) option"

text \<open>A row's data is an object from column ids to values; a header cell carries the
  attributes \<open>data-id\<close> (sortable cells only) and \<open>data-order\<close>.\<close>

type_synonym row = "(jsstring \<times> cell) list"

record th =
  thId :: "jsstring option"
  thOrder :: "jsstring option"

record dataGrid =
  columns :: "column list"
  columnWidthsInitialized :: bool
  colgroup :: "int list"
  headerRow :: "th list"
  nodes :: "row list"

text \<open>What the browser reports when a handler runs: the container's \<open>offsetWidth\<close> and
  the \<open>offsetWidth\<close> of the header cell at each index.\<close>

record rendered =
  offsetWidth :: int
  thOffsetWidth :: "nat \<Rightarrow> int"

section \<open>DataGrid: column weights\<close>

definition toInt32 :: "rat \<Rightarrow> int" where
  \<comment> \<open>\<open>x | 0\<close> on a finite number: truncate towards zero, then wrap modulo \<open>2 ^ 32\<close>
      into the signed range\<close>
  "toInt32 x =
     (let n = (if 0 \<le> x then \<lfloor>x\<rfloor> else \<lceil>x\<rceil>);
          m = n mod 2 ^ 32
      in if 2 ^ 31 \<le> m then m - 2 ^ 32 else m)"

record layout =
  sum' :: rat
  lastOffset :: int
  html :: "int list"

definition minColumnWidth :: int where
  "minColumnWidth = 14"

definition columnStep :: "int \<Rightarrow> rat \<Rightarrow> layout \<Rightarrow> rat \<Rightarrow> layout" where
  \<comment> \<open>one iteration of the second loop of \<open>applyColumnWeights\<close>. A division by zero
      yields NaN or an infinity in the program, which \<open>| 0\<close> turns into 0; HOL's
      \<open>x / 0 = 0\<close> gives the same offset.\<close>
  "columnStep tableWidth sumOfWeights st w =
     (let sum1 = sum' st + w;
          offset = toInt32 (sum1 * of_int tableWidth / sumOfWeights);
          width = max (offset - lastOffset st) minColumnWidth
      in \<lparr>sum' = sum1, lastOffset = offset, html = html st @ [width]\<rparr>)"

definition columnLoop :: "int \<Rightarrow> rat list \<Rightarrow> layout" where
  \<comment> \<open>both loops over the columns: the sum of the weights, then the offsets and widths\<close>
  "columnLoop tableWidth ws =
     (let sumOfWeights = foldl (+) 0 ws
      in foldl (columnStep tableWidth sumOfWeights) \<lparr>sum' = 0, lastOffset = 0, html = []\<rparr> ws)"

definition applyColumnWeights :: "rendered \<Rightarrow> dataGrid \<Rightarrow> dataGrid" where
  \<comment> \<open>\<open>colgroup\<close> holds the widths of the \<open>col\<close> elements written. With a weight
      undefined every sum is NaN, every offset \<open>NaN | 0 = 0\<close> and every width the
      minimum.\<close>
  "applyColumnWeights env g =
     (let tableWidth = offsetWidth env in
      if tableWidth \<le> 0 then g
      else
        (case those (map weight (columns g)) of
           None \<Rightarrow> g\<lparr>colgroup := map (\<lambda>_. minColumnWidth) (columns g)\<rparr>
         | Some ws \<Rightarrow> g\<lparr>colgroup := html (columnLoop tableWidth ws)\<rparr>))"

definition offsetAfter :: "int \<Rightarrow> rat list \<Rightarrow> nat \<Rightarrow> int" where
  \<comment> \<open>\<open>lastOffset\<close> after the first \<open>i\<close> iterations of the second loop: the boundary
      between column \<open>i - 1\<close> and column \<open>i\<close>\<close>
  "offsetAfter tableWidth ws i =
     lastOffset (foldl (columnStep tableWidth (foldl (+) 0 ws))
                   \<lparr>sum' = 0, lastOffset = 0, html = []\<rparr> (take i ws))"

definition targetOffset :: "int \<Rightarrow> rat list \<Rightarrow> nat \<Rightarrow> int" where
  \<comment> \<open>\<open>offset\<close> as iteration \<open>i\<close> computes it, from the weights before column \<open>i\<close>\<close>
  "targetOffset tableWidth ws i =
     toInt32 (sum_list (take i ws) * of_int tableWidth / sum_list ws)"

definition inferWeights :: "rendered \<Rightarrow> column list \<Rightarrow> column list" where
  \<comment> \<open>the loop of \<open>updateWeights\<close>: \<open>!column.weight\<close> holds for an undefined weight
      and for 0\<close>
  "inferWeights env cols =
     map (\<lambda>(i, column).
            if weight column = None \<or> weight column = Some 0
            then column\<lparr>weight :=
                   Some (100 * of_int (thOffsetWidth env i) / of_int (offsetWidth env))\<rparr>
            else column)
         (enumerate 0 cols)"

definition infers :: "rendered \<Rightarrow> dataGrid \<Rightarrow> bool" where
  \<comment> \<open>the guard \<open>!this.columnWidthsInitialized && tableWidth\<close>\<close>
  "infers env g = (\<not> columnWidthsInitialized g \<and> offsetWidth env \<noteq> 0)"

definition updateWeights :: "rendered \<Rightarrow> dataGrid \<Rightarrow> dataGrid" where
  "updateWeights env g =
     applyColumnWeights env
       (if infers env g
        then g\<lparr>columns := inferWeights env (columns g), columnWidthsInitialized := True\<rparr>
        else g)"

fun resizes :: "dataGrid \<Rightarrow> rendered list \<Rightarrow> dataGrid" where
  \<comment> \<open>a sequence of resize events, each running \<open>updateWeights\<close> on what it measures\<close>
  "resizes g [] = g"
| "resizes g (env # envs) = resizes (updateWeights env g) envs"

fun inferenceRuns :: "dataGrid \<Rightarrow> rendered list \<Rightarrow> nat" where
  \<comment> \<open>how many of the calls of a sequence execute the inference\<close>
  "inferenceRuns g [] = 0"
| "inferenceRuns g (env # envs) =
     (if infers env g then 1 else 0) + inferenceRuns (updateWeights env g) envs"

section \<open>DataGrid: sorting\<close>

datatype error = TypeError

definition rowGet :: "row \<Rightarrow> jsstring \<Rightarrow> cell" where
  \<comment> \<open>\<open>node.data[id]\<close>\<close>
  "rowGet r k = (case map_of r k of None \<Rightarrow> Undefined | Some v \<Rightarrow> v)"

definition columnMap :: "column list \<Rightarrow> jsstring \<Rightarrow> column option" where
  \<comment> \<open>filled in display order, so a later column with the same id wins\<close>
  "columnMap cols = map_of (rev (map (\<lambda>c. (colId c, c)) cols))"

definition renderHeader :: "column list \<Rightarrow> th list" where
  "renderHeader cols =
     map (\<lambda>c. if sortable c then \<lparr>thId = Some (colId c), thOrder = None\<rparr>
               else \<lparr>thId = None, thOrder = None\<rparr>) cols"

text \<open>
  \<open>Array.prototype.sort\<close> is a built-in. For a consistent comparison function its
  result is fixed by the language: the stable arrangement in which \<open>x\<close> comes after \<open>y\<close>
  when the function is positive on \<open>(x, y)\<close>. It is modelled as a stable insertion sort,
  which also fixes a result for the other comparison functions, where an engine may
  differ.
\<close>

fun insertSorted :: "('a \<Rightarrow> 'a \<Rightarrow> jsnum) \<Rightarrow> 'a \<Rightarrow> 'a list \<Rightarrow> 'a list" where
  "insertSorted cmp x [] = [x]"
| "insertSorted cmp x (y # ys) =
     (if jsPositive (cmp x y) then y # insertSorted cmp x ys else x # y # ys)"

definition arraySort :: "('a \<Rightarrow> 'a \<Rightarrow> jsnum) \<Rightarrow> 'a list \<Rightarrow> 'a list" where
  "arraySort cmp xs = foldr (insertSorted cmp) xs []"

definition nodeCompare ::
  "(cell \<Rightarrow> cell \<Rightarrow> jsnum) \<Rightarrow> jsstring \<Rightarrow> bool \<Rightarrow> row \<Rightarrow> row \<Rightarrow> jsnum" where
  \<comment> \<open>the function \<open>sortNodes\<close> passes to \<open>sort\<close>\<close>
  "nodeCompare cmp k isAscending a b =
     (let aVal = rowGet a k; bVal = rowGet b k
      in if isAscending then cmp aVal bVal else cmp bVal aVal)"

definition columnComparator :: "column \<Rightarrow> cell \<Rightarrow> cell \<Rightarrow> jsnum" where
  \<comment> \<open>\<open>column.comparator || naturalOrderComparator\<close>\<close>
  "columnComparator col =
     (case comparator col of Some c \<Rightarrow> c | None \<Rightarrow> naturalOrderComparator)"

definition sortNodes :: "jsstring \<Rightarrow> bool \<Rightarrow> dataGrid \<Rightarrow> error + dataGrid" where
  \<comment> \<open>reading \<open>comparator\<close> of an id that is not in the column map throws\<close>
  "sortNodes k isAscending g =
     (case columnMap (columns g) k of
        None \<Rightarrow> Inl TypeError
      | Some col \<Rightarrow>
          Inr (g\<lparr>nodes := arraySort (nodeCompare (columnComparator col) k isAscending)
                             (nodes g)\<rparr>))"

definition clickAscending :: "dataGrid \<Rightarrow> nat \<Rightarrow> bool" where
  \<comment> \<open>\<open>isAscending\<close> as a click on the header cell at index \<open>i\<close> computes it\<close>
  "clickAscending g i = (thOrder (headerRow g ! i) \<noteq> Some (js ''descending''))"

definition headerClick :: "nat \<Rightarrow> dataGrid \<Rightarrow> error + dataGrid" where
  \<comment> \<open>the delegated click handler of \<open>bindEvent\<close>, for the header cell at index \<open>i\<close>; it
      runs for sortable cells only, which are the cells with a \<open>data-id\<close>\<close>
  "headerClick i g =
     (if length (headerRow g) \<le> i then Inr g
      else
        (case thId (headerRow g ! i) of
           None \<Rightarrow> Inr g
         | Some k \<Rightarrow>
             let isAscending = clickAscending g i;
                 order = (if isAscending then js ''descending'' else js ''ascending'');
                 g1 = g\<lparr>headerRow := (headerRow g)[i := (headerRow g ! i)\<lparr>thOrder := Some order\<rparr>]\<rparr>
             in
               (case sortNodes k isAscending g1 of
                  Inl e \<Rightarrow> Inl e
                | Inr g2 \<Rightarrow>
                    Inr (g2\<lparr>headerRow :=
                              map (\<lambda>t. if thId t \<noteq> Some k then t\<lparr>thOrder := None\<rparr> else t)
                                  (headerRow g2)\<rparr>))))"

definition newDataGrid :: "rendered \<Rightarrow> column list \<Rightarrow> dataGrid" where
  \<comment> \<open>the constructor: the header is rendered, then \<open>updateWeights\<close> runs once\<close>
  "newDataGrid env cols =
     updateWeights env
       \<lparr>columns = cols, columnWidthsInitialized = False, colgroup = [],
        headerRow = renderHeader cols, nodes = []\<rparr>"

definition append' :: "row \<Rightarrow> dataGrid \<Rightarrow> dataGrid" where
  \<comment> \<open>\<open>append\<close>: a node for the row, at the end\<close>
  "append' data g = g\<lparr>nodes := nodes g @ [data]\<rparr>"

definition notAfter :: "('a \<Rightarrow> 'a \<Rightarrow> jsnum) \<Rightarrow> 'a \<Rightarrow> 'a \<Rightarrow> bool" where
  \<comment> \<open>the comparison function does not put \<open>x\<close> after \<open>y\<close>: it is not positive on them\<close>
  "notAfter cmp x y = (\<not> jsPositive (cmp x y))"

definition totalOrderOn :: "'a set \<Rightarrow> ('a \<Rightarrow> 'a \<Rightarrow> jsnum) \<Rightarrow> bool" where
  \<comment> \<open>a comparison function that orders the elements of \<open>S\<close> totally and transitively
      (ties allowed)\<close>
  "totalOrderOn S cmp =
     ((\<forall>x\<in>S. \<forall>y\<in>S. notAfter cmp x y \<or> notAfter cmp y x)
      \<and> (\<forall>x\<in>S. \<forall>y\<in>S. \<forall>z\<in>S. notAfter cmp x y \<and> notAfter cmp y z \<longrightarrow> notAfter cmp x z))"

definition tied :: "('a \<Rightarrow> 'a \<Rightarrow> jsnum) \<Rightarrow> 'a \<Rightarrow> 'a \<Rightarrow> bool" where
  \<comment> \<open>neither of the two comes after the other\<close>
  "tied cmp k y = (notAfter cmp k y \<and> notAfter cmp y k)"

definition clicked :: "nat \<Rightarrow> jsstring \<Rightarrow> column \<Rightarrow> dataGrid \<Rightarrow> dataGrid" where
  \<comment> \<open>the grid a click on cell \<open>i\<close> leaves when the cell has id \<open>k\<close> and the column map has
      \<open>col\<close> for it\<close>
  "clicked i k col g =
     g\<lparr>headerRow :=
         map (\<lambda>t. if thId t \<noteq> Some k then t\<lparr>thOrder := None\<rparr> else t)
           ((headerRow g)[i := (headerRow g ! i)
               \<lparr>thOrder := Some (if clickAscending g i then js ''descending'' else js ''ascending'')\<rparr>]),
       nodes := arraySort (nodeCompare (columnComparator col) k (clickAscending g i)) (nodes g)\<rparr>"

fun headerClicks :: "nat list \<Rightarrow> dataGrid \<Rightarrow> error + dataGrid" where
  \<comment> \<open>a sequence of clicks, on the header cells at the given indices\<close>
  "headerClicks [] g = Inr g"
| "headerClicks (i # is) g =
     (case headerClick i g of Inl e \<Rightarrow> Inl e | Inr g1 \<Rightarrow> headerClicks is g1)"

definition exampleGrid :: dataGrid where
  \<comment> \<open>a grid in the shape of the example of the class comment: two sortable columns
      without weights, two rows appended\<close>
  "exampleGrid =
     append' [(js ''name'', Str (js ''2'')), (js ''site'', Str (js ''a''))]
       (append' [(js ''name'', Str (js ''1'')), (js ''site'', Str (js ''b''))]
          (newDataGrid \<lparr>offsetWidth = 200, thOffsetWidth = (\<lambda>_. 100)\<rparr>
             [\<lparr>colId = js ''name'', title = js ''Name'', weight = None, sortable = True,
               comparator = None\<rparr>,
              \<lparr>colId = js ''site'', title = js ''Site'', weight = None, sortable = True,
               comparator = None\<rparr>]))"

section \<open>Properties of the number model\<close>

lemma bitLength_lower: "0 < n \<Longrightarrow> 2 ^ (bitLength n - 1) \<le> n"
proof (induction n rule: bitLength.induct)
  case (1 n)
  show ?case
  proof (cases "n div 2 \<le> 0")
    case True
    with "1.prems" have "n = 1" by presburger
    then show ?thesis by (simp add: bitLength.simps)
  next
    case False
    then have pos: "0 < n div 2" by simp
    with "1.IH" "1.prems" have ih: "2 ^ (bitLength (n div 2) - 1) \<le> n div 2" by simp
    have bl: "bitLength n = Suc (bitLength (n div 2))"
      using "1.prems" by (subst bitLength.simps) simp
    have "0 < bitLength (n div 2)"
      using pos by (subst bitLength.simps) simp
    then have "(2::int) ^ (bitLength n - 1) = 2 * 2 ^ (bitLength (n div 2) - 1)"
      unfolding bl by (cases "bitLength (n div 2)") simp_all
    also have "\<dots> \<le> 2 * (n div 2)" using ih by simp
    also have "\<dots> \<le> n" by presburger
    finally show ?thesis .
  qed
qed

lemma roundDouble_not_NaN: "\<not> isNaN (roundDouble n)"
  by (simp add: roundDouble_def Let_def)

lemma truthy_roundDouble: "truthy (roundDouble n) \<longleftrightarrow> n \<noteq> 0"
proof (cases "\<bar>n\<bar> < 2 ^ 53")
  case True
  then show ?thesis by (simp add: roundDouble_def)
next
  case False
  define m where "m = \<bar>n\<bar>"
  define e where "e = bitLength m - 53"
  define q where "q = m div 2 ^ e"
  define q' where "q' = (if 2 ^ (e - 1) < m mod 2 ^ e \<or> (m mod 2 ^ e = 2 ^ (e - 1) \<and> odd q)
                         then q + 1 else q)"
  have mpos: "0 < m" using False by (simp add: m_def)
  then have n0: "n \<noteq> 0" by (simp add: m_def)
  have "(2::int) ^ e \<le> 2 ^ (bitLength m - 1)"
    by (rule power_increasing) (simp_all add: e_def)
  also have "\<dots> \<le> m" by (rule bitLength_lower [OF mpos])
  finally have "0 < q"
    by (simp add: q_def pos_imp_zdiv_pos_iff)
  then have "0 < q'" by (simp add: q'_def)
  then have v: "sgn n * (q' * 2 ^ e) \<noteq> 0" using n0 by (simp add: sgn_if)
  have "roundDouble n =
          (if 2 ^ 1024 \<le> q' * 2 ^ e then (if n < 0 then NegInf else PosInf)
           else Finite (sgn n * (q' * 2 ^ e)))"
    using False unfolding roundDouble_def Let_def q'_def q_def e_def m_def by simp
  then show ?thesis using v n0 by simp
qed

lemma jsSub_roundDouble_self: "\<not> truthy (jsSub (roundDouble v) (roundDouble v))"
proof (cases "roundDouble v")
  case (Finite k)
  then show ?thesis by (simp add: roundDouble_def)
qed simp_all

lemma truthy_not_NaN: "truthy x \<Longrightarrow> \<not> isNaN x"
  by (cases x) simp_all

section \<open>Properties of the natural-order comparator\<close>

lemmas comparator_eval =
  naturalOrderComparator_def startWith_def js_def compareLoop.simps chunk_def isDigit_def
  toNumber_def trim_def isWhiteSpace_def digitsValue_def roundDouble_def

lemma digit_chunk:
  assumes "a \<noteq> []" "isDigit (hd a)"
  shows "chunk a = takeWhile isDigit a" "chunk a \<noteq> []" "list_all isDigit (chunk a)"
proof -
  show c: "chunk a = takeWhile isDigit a"
    using assms by (cases a) (simp_all add: chunk_def)
  show "chunk a \<noteq> []"
    using assms by (simp add: chunk_nonempty)
  show "list_all isDigit (chunk a)"
    unfolding c list_all_iff using set_takeWhileD by fastforce
qed

lemma toNumber_digits:
  "s \<noteq> [] \<Longrightarrow> list_all isDigit s \<Longrightarrow> toNumber s = roundDouble (digitsValue s)"
  by (simp add: toNumber_def)

lemma numeric_tie:
  assumes "a \<noteq> []" "b \<noteq> []" "isDigit (hd a)" "isDigit (hd b)"
      and eq: "digitsValue (chunk a) = digitsValue (chunk b)"
      and len: "length (chunk a) \<noteq> length (chunk b)"
  shows "compareLoop a b =
           (if digitsValue (chunk a) = 0
            then Finite (int (length (chunk a)) - int (length (chunk b)))
            else Finite (int (length (chunk b)) - int (length (chunk a))))"
proof -
  have na: "toNumber (chunk a) = roundDouble (digitsValue (chunk a))"
    using assms digit_chunk [of a] by (simp add: toNumber_digits)
  have nb: "toNumber (chunk b) = roundDouble (digitsValue (chunk a))"
    using assms digit_chunk [of b] by (simp add: toNumber_digits)
  show ?thesis
    using assms(1,2) len
    by (subst compareLoop.simps)
       (simp add: Let_def na nb roundDouble_not_NaN jsSub_roundDouble_self truthy_roundDouble)
qed

lemma compareLoop_not_NaN: "\<not> isNaN (compareLoop a b)"
proof (induction a b rule: compareLoop.induct)
  case (1 a b)
  show ?case
    using 1 by (subst compareLoop.simps) (auto simp: Let_def dest: truthy_not_NaN)
qed

lemma compareLoop_total: "compareLoop_dom (a, b)"
proof -
  have "All compareLoop_dom"
  proof (relation "measure (\<lambda>(a, b). length a + length b)")
    show "wf (measure (\<lambda>(a :: jsstring, b :: jsstring). length a + length b))"
      by simp
  next
    fix a b :: jsstring and x xa
    assume "a \<noteq> []" "b \<noteq> []" "x = chunk a" "xa = chunk b"
    then show "((drop (length x) a, drop (length xa) b), a, b)
               \<in> measure (\<lambda>(a, b). length a + length b)"
      using loop_variant [of a b] by simp
  next
    fix a b :: jsstring and x xa
    assume "a \<noteq> []" "b \<noteq> []" "x = chunk a" "xa = chunk b"
    then show "((drop (length x) a, drop (length xa) b), a, b)
               \<in> measure (\<lambda>(a, b). length a + length b)"
      using loop_variant [of a b] by simp
  qed
  then show ?thesis by simp
qed

lemma chunk_is_prefix: "take (length (chunk s)) s = chunk s"
proof (cases s)
  case Nil
  then show ?thesis by (simp add: chunk_def)
next
  case (Cons c cs)
  have "take (length (takeWhile P s)) s = takeWhile P s" for P
    by (metis append_eq_conv_conj takeWhile_dropWhile_id)
  then show ?thesis
    using Cons by (auto simp: chunk_def simp del: takeWhile.simps)
qed

lemma jsSub_self: "\<not> isNaN v \<Longrightarrow> \<not> truthy (jsSub v v)"
  by (cases v) (simp_all add: roundDouble_def)

lemma equal_chunks:
  assumes "a \<noteq> []" "b \<noteq> []" "chunk a = chunk b"
  shows "compareLoop a b
         = compareLoop (drop (length (chunk a)) a) (drop (length (chunk a)) b)"
  using assms by (subst compareLoop.simps) (simp add: Let_def jsSub_self)

lemma chunk_hd:
  "s \<noteq> [] \<Longrightarrow>
   chunk s = (if isDigit (hd s) then takeWhile isDigit s else takeWhile (\<lambda>x. \<not> isDigit x) s)"
  by (cases s) (simp_all add: chunk_def)

lemma chunk_append:
  assumes "p \<noteq> []" "\<not> isDigit (last p)" "a \<noteq> []" "isDigit (hd a)"
  shows "chunk (p @ a) = chunk p"
proof -
  have last: "last p \<in> set p" using assms(1) by simp
  have digits: "takeWhile isDigit (p @ a) = takeWhile isDigit p"
    using assms(2) last by (intro takeWhile_append1 [of "last p"]) simp_all
  have others: "takeWhile (\<lambda>x. \<not> isDigit x) (p @ a) = takeWhile (\<lambda>x. \<not> isDigit x) p"
  proof (cases "\<exists>x\<in>set p. isDigit x")
    case True
    then obtain x where "x \<in> set p" "isDigit x" by blast
    then show ?thesis by (intro takeWhile_append1 [of x]) simp_all
  next
    case False
    then have "takeWhile (\<lambda>x. \<not> isDigit x) (p @ a) = p @ takeWhile (\<lambda>x. \<not> isDigit x) a"
      by (intro takeWhile_append2) simp
    also have "\<dots> = p" using assms(3,4) by (cases a) simp_all
    also have "\<dots> = takeWhile (\<lambda>x. \<not> isDigit x) p"
      using False by (metis (mono_tags, lifting) takeWhile_eq_all_conv)
    finally show ?thesis .
  qed
  have "chunk (p @ a)
        = (if isDigit (hd p) then takeWhile isDigit (p @ a)
           else takeWhile (\<lambda>x. \<not> isDigit x) (p @ a))"
    using assms(1) by (simp add: chunk_hd)
  also have "\<dots> = (if isDigit (hd p) then takeWhile isDigit p
                      else takeWhile (\<lambda>x. \<not> isDigit x) p)"
    by (simp only: digits others)
  also have "\<dots> = chunk p"
    by (rule chunk_hd [OF assms(1), symmetric])
  finally show ?thesis .
qed

lemma common_prefix:
  assumes "a \<noteq> []" "b \<noteq> []" "isDigit (hd a)" "isDigit (hd b)"
  shows "p = [] \<or> \<not> isDigit (last p) \<Longrightarrow> compareLoop (p @ a) (p @ b) = compareLoop a b"
proof (induction "length p" arbitrary: p rule: less_induct)
  case less
  show ?case
  proof (cases "p = []")
    case True
    then show ?thesis by simp
  next
    case False
    then have l: "\<not> isDigit (last p)" using less.prems by simp
    let ?c = "chunk p"
    let ?p' = "drop (length ?c) p"
    have ca: "chunk (p @ a) = ?c" by (rule chunk_append [OF False l assms(1,3)])
    have cb: "chunk (p @ b) = ?c" by (rule chunk_append [OF False l assms(2,4)])
    have len: "length ?c \<le> length p" by (rule length_chunk_le)
    have "compareLoop (p @ a) (p @ b)
          = compareLoop (drop (length ?c) (p @ a)) (drop (length ?c) (p @ b))"
      using equal_chunks [of "p @ a" "p @ b"] False ca cb by simp
    also have "\<dots> = compareLoop (?p' @ a) (?p' @ b)"
      using len by simp
    also have "\<dots> = compareLoop a b"
    proof (rule less.hyps)
      show "length ?p' < length p"
        using substring_chunk_shorter [OF False] .
      show "?p' = [] \<or> \<not> isDigit (last ?p')"
        using l by (cases "?p' = []") simp_all
    qed
    finally show ?thesis .
  qed
qed

lemma comparator_common_prefix:
  assumes "a \<noteq> []" "b \<noteq> []" "isDigit (hd a)" "isDigit (hd b)"
      and "p = [] \<or> \<not> isDigit (last p)"
  shows "naturalOrderComparator (Str (p @ a)) (Str (p @ b)) = compareLoop a b"
proof -
  have u: "\<not> startWith a (js ''_'')" "\<not> startWith b (js ''_'')"
    using assms(1-4) by (cases a; cases b; simp add: startWith_def js_def isDigit_def; fastforce)+
  have "startWith (p @ a) (js ''_'') = startWith (p @ b) (js ''_'')"
    using u by (cases p) (simp_all add: startWith_def js_def)
  then show ?thesis
    using common_prefix [OF assms] by (simp add: naturalOrderComparator_def)
qed

text \<open>
  C1, as stated: on a tie of two numeric chunks of different lengths the shorter chunk
  sorts first when the value is not zero and the longer one when it is zero, so that
  \<open>comparator("a1", "a01") > 0\<close> is false. The code does the opposite in both cases:
  \<open>comparator("a1", "a01")\<close> is 1, which is positive, and \<open>comparator("a0", "a00")\<close> is
  \<open>-1\<close>, which puts the shorter chunk of zeros first.
\<close>

theorem natural_order_a1_a01_counterexample:
  "jsPositive (naturalOrderComparator (Str (js ''a1'')) (Str (js ''a01'')))
   \<and> naturalOrderComparator (Str (js ''a1'')) (Str (js ''a01'')) = Finite 1
   \<and> naturalOrderComparator (Str (js ''a0'')) (Str (js ''a00'')) = Finite (- 1)"
  by (simp add: comparator_eval)

text \<open>
  C1, amended: when the current chunks of both strings are runs of digits with the same
  value and different lengths, the loop returns the length of the first chunk minus the
  length of the second if the value is zero (the shorter run of zeros sorts first), and
  the length of the second minus the length of the first otherwise (the chunk with more
  digits sorts first). The comparator reaches these chunks, and returns that result, on
  two strings that share what comes before them: a common prefix that is empty or ends in
  a non-digit.
\<close>

theorem natural_order_numeric_tie:
  assumes "a \<noteq> []" "b \<noteq> []" "isDigit (hd a)" "isDigit (hd b)"
      and "digitsValue (chunk a) = digitsValue (chunk b)"
      and "length (chunk a) \<noteq> length (chunk b)"
      and "p = [] \<or> \<not> isDigit (last p)"
  shows "compareLoop a b =
           (if digitsValue (chunk a) = 0
            then Finite (int (length (chunk a)) - int (length (chunk b)))
            else Finite (int (length (chunk b)) - int (length (chunk a))))
         \<and> naturalOrderComparator (Str (p @ a)) (Str (p @ b)) = compareLoop a b
         \<and> (jsNegative (compareLoop a b) \<longleftrightarrow>
              (if digitsValue (chunk a) = 0 then length (chunk a) < length (chunk b)
               else length (chunk b) < length (chunk a)))"
  using numeric_tie [OF assms(1-6)] comparator_common_prefix [OF assms(1-4,7)] by simp

theorem natural_order_numeric_tie_witness:
  "js ''1'' \<noteq> [] \<and> js ''01'' \<noteq> [] \<and> isDigit (hd (js ''1'')) \<and> isDigit (hd (js ''01''))
   \<and> digitsValue (chunk (js ''1'')) = digitsValue (chunk (js ''01''))
   \<and> length (chunk (js ''1'')) \<noteq> length (chunk (js ''01''))
   \<and> \<not> isDigit (last (js ''a''))
   \<and> compareLoop (js ''1'') (js ''01'') = Finite 1
   \<and> naturalOrderComparator (Str (js ''a'' @ js ''1'')) (Str (js ''a'' @ js ''01'')) = Finite 1
   \<and> js ''a'' @ js ''1'' = js ''a1'' \<and> js ''a'' @ js ''01'' = js ''a01''"
proof -
  have h: "js ''1'' \<noteq> []" "js ''01'' \<noteq> []" "isDigit (hd (js ''1''))"
    "isDigit (hd (js ''01''))"
    "digitsValue (chunk (js ''1'')) = digitsValue (chunk (js ''01''))"
    "length (chunk (js ''1'')) \<noteq> length (chunk (js ''01''))"
    "js ''a'' = [] \<or> \<not> isDigit (last (js ''a''))"
    by (simp_all add: js_def isDigit_def chunk_def digitsValue_def)
  have v: "digitsValue (chunk (js ''1'')) = 1" "length (chunk (js ''1'')) = 1"
    "length (chunk (js ''01'')) = 2" "\<not> isDigit (last (js ''a''))"
    "js ''a'' @ js ''1'' = js ''a1''" "js ''a'' @ js ''01'' = js ''a01''"
    by (simp_all add: js_def isDigit_def chunk_def digitsValue_def)
  show ?thesis
    using h(1-6) natural_order_numeric_tie [OF h] by (simp add: v)
qed

text \<open>
  C5: on a tie of two runs of digits with the same value, not zero, and different
  lengths, the chunk with more digits sorts first: the result is negative when the
  first string has the longer chunk and positive when the second has it, in the loop and
  for the comparator on two strings that share what comes before the chunks (a common
  prefix that is empty or ends in a non-digit). In particular \<open>"v007"\<close> sorts before
  \<open>"v07"\<close>.
\<close>

theorem natural_order_more_digits_first:
  assumes "a \<noteq> []" "b \<noteq> []" "isDigit (hd a)" "isDigit (hd b)"
      and "digitsValue (chunk a) = digitsValue (chunk b)"
      and "digitsValue (chunk a) \<noteq> 0"
      and "length (chunk b) < length (chunk a)"
      and "p = [] \<or> \<not> isDigit (last p)"
  shows "jsNegative (compareLoop a b) \<and> jsPositive (compareLoop b a)
         \<and> jsNegative (naturalOrderComparator (Str (p @ a)) (Str (p @ b)))
         \<and> jsPositive (naturalOrderComparator (Str (p @ b)) (Str (p @ a)))
         \<and> jsNegative (naturalOrderComparator (Str (js ''v007'')) (Str (js ''v07'')))"
proof -
  have ne: "length (chunk a) \<noteq> length (chunk b)" "length (chunk b) \<noteq> length (chunk a)"
    using assms(7) by simp_all
  have ab: "compareLoop a b = Finite (int (length (chunk b)) - int (length (chunk a)))"
    using numeric_tie [OF assms(1-5) ne(1)] assms(6) by simp
  have ba: "compareLoop b a = Finite (int (length (chunk a)) - int (length (chunk b)))"
    using numeric_tie [OF assms(2,1,4,3) assms(5) [symmetric] ne(2)] assms(5,6) by simp
  have v: "naturalOrderComparator (Str (js ''v007'')) (Str (js ''v07'')) = Finite (- 1)"
    by (simp add: comparator_eval)
  show ?thesis
    using assms(7)
    by (simp add: ab ba v comparator_common_prefix [OF assms(1-4,8)]
        comparator_common_prefix [OF assms(2,1,4,3,8)])
qed

theorem natural_order_more_digits_first_witness:
  "js ''007'' \<noteq> [] \<and> js ''07'' \<noteq> [] \<and> isDigit (hd (js ''007'')) \<and> isDigit (hd (js ''07''))
   \<and> digitsValue (chunk (js ''007'')) = digitsValue (chunk (js ''07''))
   \<and> digitsValue (chunk (js ''007'')) \<noteq> 0
   \<and> length (chunk (js ''07'')) < length (chunk (js ''007''))
   \<and> \<not> isDigit (last (js ''v''))
   \<and> jsNegative (naturalOrderComparator (Str (js ''v'' @ js ''007'')) (Str (js ''v'' @ js ''07'')))
   \<and> jsPositive (naturalOrderComparator (Str (js ''v'' @ js ''07'')) (Str (js ''v'' @ js ''007'')))"
proof -
  have h: "js ''007'' \<noteq> []" "js ''07'' \<noteq> []" "isDigit (hd (js ''007''))"
    "isDigit (hd (js ''07''))"
    "digitsValue (chunk (js ''007'')) = digitsValue (chunk (js ''07''))"
    "digitsValue (chunk (js ''007'')) \<noteq> 0"
    "length (chunk (js ''07'')) < length (chunk (js ''007''))"
    "js ''v'' = [] \<or> \<not> isDigit (last (js ''v''))"
    by (simp_all add: js_def isDigit_def chunk_def digitsValue_def)
  have v: "\<not> isDigit (last (js ''v''))"
    by (simp add: js_def isDigit_def)
  show ?thesis
    using h(1-7) v natural_order_more_digits_first [OF h] by simp
qed

text \<open>
  C10, as stated: the comparator returns an integer for every pair of strings. The
  non-digit chunk \<open>"Infinity"\<close> is numeric for \<open>isNaN\<close>, and \<open>"Infinity" - "1"\<close> is
  \<open>Infinity\<close>, which the comparator returns: the result is not an integer.
\<close>

theorem natural_order_Infinity_counterexample:
  "naturalOrderComparator (Str (js ''Infinity'')) (Str (js ''1'')) = PosInf
   \<and> \<not> isInteger (naturalOrderComparator (Str (js ''Infinity'')) (Str (js ''1'')))"
  by (simp add: comparator_eval)

text \<open>
  C10, amended: the comparator terminates on every pair of values and returns a number
  that is not NaN (an integer, or an infinity). Its loop is total: on two non-empty
  strings the chunk pattern matches a non-empty prefix of each, so the combined length of
  the two remaining strings strictly decreases on every iteration, and the loop returns
  at once when either string is empty.
\<close>

theorem natural_order_terminates:
  "compareLoop_dom (a, b)
   \<and> \<not> isNaN (naturalOrderComparator x y)
   \<and> (a \<noteq> [] \<and> b \<noteq> [] \<longrightarrow>
        chunk a \<noteq> [] \<and> chunk b \<noteq> []
        \<and> take (length (chunk a)) a = chunk a \<and> take (length (chunk b)) b = chunk b
        \<and> length (drop (length (chunk a)) a) + length (drop (length (chunk b)) b)
            < length a + length b)
   \<and> (a = [] \<or> b = [] \<longrightarrow>
        compareLoop a b = Finite (if a \<noteq> [] then 1 else if b \<noteq> [] then - 1 else 0))"
proof -
  have "\<not> isNaN (naturalOrderComparator x y)"
    by (simp add: naturalOrderComparator_def Let_def compareLoop_not_NaN)
  moreover have "a = [] \<or> b = [] \<longrightarrow>
      compareLoop a b = Finite (if a \<noteq> [] then 1 else if b \<noteq> [] then - 1 else 0)"
    by (subst compareLoop.simps) auto
  ultimately show ?thesis
    using compareLoop_total [of a b] loop_variant [of a b]
    by (simp add: chunk_nonempty chunk_is_prefix)
qed

theorem natural_order_terminates_witness:
  "js ''file2'' \<noteq> [] \<and> js ''file10'' \<noteq> []
   \<and> chunk (js ''file2'') = js ''file'' \<and> chunk (js ''file10'') = js ''file''
   \<and> length (drop (length (chunk (js ''file2''))) (js ''file2''))
       + length (drop (length (chunk (js ''file10''))) (js ''file10''))
       < length (js ''file2'') + length (js ''file10'')
   \<and> compareLoop_dom (js ''file2'', js ''file10'')
   \<and> \<not> isNaN (naturalOrderComparator (Str (js ''file2'')) (Str (js ''file10'')))
   \<and> compareLoop [] (js ''file10'') = Finite (- 1)"
  using natural_order_terminates [of "js ''file2''" "js ''file10''"
      "Str (js ''file2'')" "Str (js ''file10'')"]
    natural_order_terminates [of "[]" "js ''file10''" "Str (js ''file2'')" "Str (js ''file10'')"]
  by (simp add: js_def chunk_def isDigit_def)

section \<open>Properties of the column layout\<close>

lemma foldl_plus: "foldl (+) a xs = a + sum_list xs" for a :: rat
  by (induction xs arbitrary: a) (simp_all add: add.assoc)

lemma toInt32_floor:
  assumes "0 \<le> x" "x < 2 ^ 31"
  shows "toInt32 x = \<lfloor>x\<rfloor>"
proof -
  define n where "n = \<lfloor>x\<rfloor>"
  have n0: "0 \<le> n" using assms(1) by (simp add: n_def)
  have "x < of_int ((2::int) ^ 31)" using assms(2) by simp
  then have n1: "n < 2 ^ 31" unfolding n_def by (simp only: floor_less_iff)
  have "n < 2 ^ 32" using n1 by simp
  with n0 have m: "n mod 2 ^ 32 = n" by (rule mod_pos_pos_trivial)
  show ?thesis
    unfolding toInt32_def Let_def using assms(1) n1 m by (simp add: n_def)
qed

lemma toInt32_zero: "toInt32 0 = 0"
  by (simp add: toInt32_def)

lemma loop_state:
  assumes "i \<le> length ws"
  shows "foldl (columnStep W (sum_list ws)) \<lparr>sum' = 0, lastOffset = 0, html = []\<rparr> (take i ws)
         = \<lparr>sum' = sum_list (take i ws), lastOffset = targetOffset W ws i,
            html = map (\<lambda>k. max (targetOffset W ws (Suc k) - targetOffset W ws k) minColumnWidth)
                       [0..<i]\<rparr>"
  using assms
proof (induction i)
  case 0
  then show ?case by (simp add: targetOffset_def toInt32_zero)
next
  case (Suc i)
  then have lt: "i < length ws" by simp
  have t: "take (Suc i) ws = take i ws @ [ws ! i]"
    using lt by (simp add: take_Suc_conv_app_nth)
  have s: "sum_list (take (Suc i) ws) = sum_list (take i ws) + ws ! i"
    by (simp add: t)
  let ?init = "\<lparr>sum' = 0, lastOffset = 0, html = []\<rparr>"
  let ?w = "\<lambda>k. max (targetOffset W ws (Suc k) - targetOffset W ws k) minColumnWidth"
  have ih: "foldl (columnStep W (sum_list ws)) ?init (take i ws)
            = \<lparr>sum' = sum_list (take i ws), lastOffset = targetOffset W ws i,
               html = map ?w [0..<i]\<rparr>"
    using Suc by simp
  have "foldl (columnStep W (sum_list ws)) ?init (take (Suc i) ws)
        = columnStep W (sum_list ws) (foldl (columnStep W (sum_list ws)) ?init (take i ws)) (ws ! i)"
    by (simp add: t)
  also have "\<dots> = columnStep W (sum_list ws)
                       \<lparr>sum' = sum_list (take i ws), lastOffset = targetOffset W ws i,
                        html = map ?w [0..<i]\<rparr> (ws ! i)"
    by (simp only: ih)
  also have "\<dots> = \<lparr>sum' = sum_list (take (Suc i) ws), lastOffset = targetOffset W ws (Suc i),
                       html = map ?w [0..<Suc i]\<rparr>"
    by (simp add: columnStep_def Let_def targetOffset_def s)
  finally show ?case .
qed

lemma offsetAfter_target: "i \<le> length ws \<Longrightarrow> offsetAfter W ws i = targetOffset W ws i"
  by (simp add: offsetAfter_def foldl_plus loop_state)

lemma html_columnLoop:
  "html (columnLoop W ws) =
     map (\<lambda>k. max (targetOffset W ws (Suc k) - targetOffset W ws k) minColumnWidth)
         [0..<length ws]"
  using loop_state [of "length ws" ws W] by (simp add: columnLoop_def foldl_plus)

lemma sum_take_mono:
  fixes ws :: "rat list"
  assumes "\<forall>w\<in>set ws. 0 \<le> w" "i \<le> j"
  shows "sum_list (take i ws) \<le> sum_list (take j ws)"
proof -
  have "take j ws = take i ws @ take (j - i) (drop i ws)"
    using assms(2) by (metis le_add_diff_inverse take_add)
  moreover have "0 \<le> sum_list (take (j - i) (drop i ws))"
    using assms(1) by (intro sum_list_nonneg) (auto dest!: in_set_takeD in_set_dropD)
  ultimately show ?thesis by simp
qed

lemma target_is_floor:
  assumes W: "0 < W" "W < 2 ^ 31" and nonneg: "\<forall>w\<in>set ws. 0 \<le> w"
  shows "targetOffset W ws i = \<lfloor>sum_list (take i ws) * of_int W / sum_list ws\<rfloor>"
proof -
  define P where "P = sum_list (take i ws)"
  define T where "T = sum_list ws"
  have P0: "0 \<le> P"
    unfolding P_def using nonneg by (intro sum_list_nonneg) (auto dest: in_set_takeD)
  have PT: "P \<le> T" unfolding P_def T_def
    using sum_take_mono [OF nonneg, of i "max i (length ws)"] by simp
  have x0: "0 \<le> P * of_int W / T"
    using P0 PT W by simp
  have "P * of_int W / T \<le> of_int W"
  proof (cases "T = 0")
    case True
    then show ?thesis using W by simp
  next
    case False
    then have "0 < T" using P0 PT by simp
    then show ?thesis using PT W by (simp add: divide_le_eq mult.commute mult_left_mono)
  qed
  also have "\<dots> < 2 ^ 31" using W by (metis of_int_less_iff of_int_numeral of_int_power)
  finally have x1: "P * of_int W / T < 2 ^ 31" .
  show ?thesis
    unfolding targetOffset_def P_def [symmetric] T_def [symmetric]
    by (rule toInt32_floor [OF x0 x1])
qed

lemma target_mono:
  assumes W: "0 < W" "W < 2 ^ 31" and nonneg: "\<forall>w\<in>set ws. 0 \<le> w" and "i \<le> j"
  shows "targetOffset W ws i \<le> targetOffset W ws j"
proof -
  have T0: "0 \<le> sum_list ws" using nonneg by (intro sum_list_nonneg) auto
  have "sum_list (take i ws) * of_int W / sum_list ws
        \<le> sum_list (take j ws) * of_int W / sum_list ws"
    using sum_take_mono [OF nonneg \<open>i \<le> j\<close>] W T0
    by (intro divide_right_mono mult_right_mono) simp_all
  then show ?thesis
    unfolding target_is_floor [OF W nonneg] by (rule floor_mono)
qed

lemma target_last:
  assumes W: "0 < W" "W < 2 ^ 31" and nonneg: "\<forall>w\<in>set ws. 0 \<le> w" and T: "0 < sum_list ws"
  shows "targetOffset W ws (length ws) = W"
  unfolding target_is_floor [OF W nonneg] using T by simp

lemma widths_telescope:
  "f n - f 0 \<le> sum_list (map (\<lambda>k. max (f (Suc k) - f k) m) [0..<n])" for f :: "nat \<Rightarrow> int"
  by (induction n) auto

lemma those_map_Some: "those (map Some xs) = Some xs"
  by (induction xs) simp_all

lemma colgroup_applyColumnWeights:
  assumes "0 < offsetWidth env" "map weight (columns g) = map Some ws"
  shows "colgroup (applyColumnWeights env g) = html (columnLoop (offsetWidth env) ws)"
  using assms by (simp add: applyColumnWeights_def Let_def those_map_Some)






section \<open>Properties of weight inference\<close>

lemma updateWeights_initialized:
  "offsetWidth env \<noteq> 0 \<Longrightarrow> columnWidthsInitialized (updateWeights env g)"
  by (simp add: updateWeights_def infers_def applyColumnWeights_def Let_def split: option.splits)

lemma updateWeights_keeps:
  assumes "columnWidthsInitialized g"
  shows "columns (updateWeights env g) = columns g"
    and "columnWidthsInitialized (updateWeights env g)"
  using assms
  by (simp_all add: updateWeights_def infers_def applyColumnWeights_def Let_def split: option.splits)

lemma resizes_keeps:
  "columnWidthsInitialized g \<Longrightarrow>
     columns (resizes g envs) = columns g \<and> columnWidthsInitialized (resizes g envs)
     \<and> inferenceRuns g envs = 0"
proof (induction envs arbitrary: g)
  case Nil
  then show ?case by simp
next
  case (Cons env envs)
  from Cons.IH [OF updateWeights_keeps(2) [OF Cons.prems]] Cons.prems
  show ?case by (simp add: updateWeights_keeps(1) infers_def)
qed

lemma inferenceRuns_le: "inferenceRuns g envs \<le> 1"
proof (induction envs arbitrary: g)
  case Nil
  then show ?case by simp
next
  case (Cons env envs)
  show ?case
  proof (cases "infers env g")
    case True
    then have "columnWidthsInitialized (updateWeights env g)"
      by (simp add: updateWeights_initialized infers_def)
    then show ?thesis using True by (simp add: resizes_keeps)
  next
    case False
    then show ?thesis using Cons.IH by simp
  qed
qed

lemma columns_updateWeights_infers:
  "infers env g \<Longrightarrow> columns (updateWeights env g) = inferWeights env (columns g)"
  by (simp add: updateWeights_def applyColumnWeights_def Let_def split: option.splits)

lemma inferWeights_nth:
  assumes "i < length cols"
  shows "inferWeights env cols ! i =
           (if weight (cols ! i) = None \<or> weight (cols ! i) = Some 0
            then (cols ! i)\<lparr>weight :=
                   Some (100 * of_int (thOffsetWidth env i) / of_int (offsetWidth env))\<rparr>
            else cols ! i)"
  using assms by (simp add: inferWeights_def nth_enumerate_eq)

text \<open>
  C4: in any sequence of \<open>updateWeights\<close> calls, from any state of a grid, at most one
  call executes the inference. Once a call has seen a container width that is not zero
  the grid is marked, and no later call changes a column: the weights stay as that call
  left them. The call that infers gives a column without a weight 100 times the width of
  its header cell over the container width; a call that does not infer leaves the
  columns alone.
\<close>

theorem updateWeights_infers_once:
  "inferenceRuns g envs \<le> 1
   \<and> (offsetWidth env \<noteq> 0 \<longrightarrow>
        columnWidthsInitialized (updateWeights env g)
        \<and> columns (resizes (updateWeights env g) envs) = columns (updateWeights env g)
        \<and> inferenceRuns (updateWeights env g) envs = 0)
   \<and> (infers env g \<and> i < length (columns g) \<and> weight (columns g ! i) = None \<longrightarrow>
        weight (columns (updateWeights env g) ! i)
          = Some (100 * of_int (thOffsetWidth env i) / of_int (offsetWidth env)))
   \<and> (\<not> infers env g \<longrightarrow> columns (updateWeights env g) = columns g)"
proof -
  have "offsetWidth env \<noteq> 0 \<longrightarrow>
        columnWidthsInitialized (updateWeights env g)
        \<and> columns (resizes (updateWeights env g) envs) = columns (updateWeights env g)
        \<and> inferenceRuns (updateWeights env g) envs = 0"
    using resizes_keeps [OF updateWeights_initialized, of env g envs]
    by (simp add: updateWeights_initialized)
  moreover have "infers env g \<and> i < length (columns g) \<and> weight (columns g ! i) = None \<longrightarrow>
        weight (columns (updateWeights env g) ! i)
          = Some (100 * of_int (thOffsetWidth env i) / of_int (offsetWidth env))"
    by (simp add: columns_updateWeights_infers inferWeights_nth)
  moreover have "\<not> infers env g \<longrightarrow> columns (updateWeights env g) = columns g"
    by (simp add: updateWeights_def applyColumnWeights_def Let_def split: option.splits)
  ultimately show ?thesis
    using inferenceRuns_le [of g envs] by blast
qed

theorem updateWeights_infers_once_witness:
  "(let g = \<lparr>columns =
               [\<lparr>colId = js ''name'', title = js ''Name'', weight = None, sortable = True, comparator = None\<rparr>,
                \<lparr>colId = js ''site'', title = js ''Site'', weight = Some 30, sortable = False, comparator = None\<rparr>],
             columnWidthsInitialized = False, colgroup = [], headerRow = [], nodes = []\<rparr>;
        env = \<lparr>offsetWidth = 200, thOffsetWidth = (\<lambda>_. 50)\<rparr>;
        envs = [\<lparr>offsetWidth = 400, thOffsetWidth = (\<lambda>_. 300)\<rparr>]
    in offsetWidth env \<noteq> 0 \<and> infers env g \<and> 0 < length (columns g)
       \<and> weight (columns g ! 0) = None
       \<and> inferenceRuns g (env # envs) \<le> 1
       \<and> weight (columns (updateWeights env g) ! 0) = Some 25
       \<and> columns (resizes (updateWeights env g) envs) = columns (updateWeights env g))"
proof -
  let ?g = "\<lparr>columns =
               [\<lparr>colId = js ''name'', title = js ''Name'', weight = None, sortable = True, comparator = None\<rparr>,
                \<lparr>colId = js ''site'', title = js ''Site'', weight = Some 30, sortable = False, comparator = None\<rparr>],
             columnWidthsInitialized = False, colgroup = [], headerRow = [], nodes = []\<rparr>"
  let ?env = "\<lparr>offsetWidth = 200, thOffsetWidth = (\<lambda>_. 50)\<rparr>"
  let ?envs = "[\<lparr>offsetWidth = 400, thOffsetWidth = (\<lambda>_. 300)\<rparr>]"
  have h: "offsetWidth ?env \<noteq> 0" "infers ?env ?g" "0 < length (columns ?g)"
    "weight (columns ?g ! 0) = None"
    by (simp_all add: infers_def)
  note t1 = updateWeights_infers_once [of ?g "?env # ?envs" ?env 0]
  note t2 = updateWeights_infers_once [of ?g ?envs ?env 0]
  have a: "inferenceRuns ?g (?env # ?envs) \<le> 1"
    using t1 by (rule conjunct1)
  have b: "columns (resizes (updateWeights ?env ?g) ?envs) = columns (updateWeights ?env ?g)"
    using t2 h(1) by blast
  have "weight (columns (updateWeights ?env ?g) ! 0)
          = Some (100 * of_int (thOffsetWidth ?env 0) / of_int (offsetWidth ?env))"
    using t2 h(2,3,4) by blast
  then have c: "weight (columns (updateWeights ?env ?g) ! 0) = Some 25"
    by simp
  show ?thesis
    unfolding Let_def by (intro conjI h a b c)
qed

section \<open>Properties of sorting\<close>

lemma order_totalD:
  "totalOrderOn S cmp \<Longrightarrow> x \<in> S \<Longrightarrow> y \<in> S \<Longrightarrow> \<not> notAfter cmp x y \<Longrightarrow> notAfter cmp y x"
  unfolding totalOrderOn_def by blast

lemma order_transD:
  "totalOrderOn S cmp \<Longrightarrow> x \<in> S \<Longrightarrow> y \<in> S \<Longrightarrow> z \<in> S \<Longrightarrow>
   notAfter cmp x y \<Longrightarrow> notAfter cmp y z \<Longrightarrow> notAfter cmp x z"
  unfolding totalOrderOn_def by blast

lemma order_reflD: "totalOrderOn S cmp \<Longrightarrow> x \<in> S \<Longrightarrow> notAfter cmp x x"
  unfolding totalOrderOn_def by blast

lemma set_insertSorted: "set (insertSorted cmp x ys) = insert x (set ys)"
  by (induction ys) auto

lemma mset_insertSorted: "mset (insertSorted cmp x ys) = add_mset x (mset ys)"
  by (induction ys) auto

lemma mset_arraySort: "mset (arraySort cmp xs) = mset xs"
  by (induction xs) (simp_all add: arraySort_def mset_insertSorted)

lemma set_arraySort: "set (arraySort cmp xs) = set xs"
  using mset_arraySort [of cmp xs] by (metis set_mset_mset)

lemma arraySort_Cons: "arraySort cmp (x # xs) = insertSorted cmp x (arraySort cmp xs)"
  by (simp add: arraySort_def)

lemma sorted_insertSorted:
  assumes "totalOrderOn S cmp" "x \<in> S" "set ys \<subseteq> S" "sorted_wrt (notAfter cmp) ys"
  shows "sorted_wrt (notAfter cmp) (insertSorted cmp x ys)"
  using assms(3,4)
proof (induction ys)
  case Nil
  then show ?case by simp
next
  case (Cons y ys)
  show ?case
  proof (cases "jsPositive (cmp x y)")
    case True
    then have "\<not> notAfter cmp x y" by (simp add: notAfter_def)
    then have yx: "notAfter cmp y x"
      using order_totalD [OF assms(1,2)] Cons.prems(1) by simp
    have "sorted_wrt (notAfter cmp) (insertSorted cmp x ys)"
      using Cons by simp
    then show ?thesis
      using True yx Cons.prems by (auto simp: set_insertSorted)
  next
    case False
    then have xy: "notAfter cmp x y" by (simp add: notAfter_def)
    have "notAfter cmp x z" if "z \<in> set ys" for z
      using order_transD [OF assms(1,2) _ _ xy, of z] Cons.prems that by auto
    then show ?thesis
      using False xy Cons.prems by auto
  qed
qed

lemma sorted_arraySort:
  assumes "totalOrderOn S cmp" "set xs \<subseteq> S"
  shows "sorted_wrt (notAfter cmp) (arraySort cmp xs)"
  using assms(2)
proof (induction xs)
  case Nil
  then show ?case by (simp add: arraySort_def)
next
  case (Cons x xs)
  then show ?case
    unfolding arraySort_Cons
    by (intro sorted_insertSorted [OF assms(1)]) (simp_all add: set_arraySort)
qed

lemma filter_insertSorted:
  assumes "totalOrderOn S cmp" "x \<in> S" "set ys \<subseteq> S" "k \<in> S"
  shows "filter (tied cmp k) (insertSorted cmp x ys) = filter (tied cmp k) (x # ys)"
  using assms(3)
proof (induction ys)
  case Nil
  then show ?case by simp
next
  case (Cons y ys)
  show ?case
  proof (cases "jsPositive (cmp x y)")
    case True
    have "\<not> (tied cmp k x \<and> tied cmp k y)"
    proof
      assume t: "tied cmp k x \<and> tied cmp k y"
      then have "notAfter cmp x k" "notAfter cmp k y" by (simp_all add: tied_def)
      then have "notAfter cmp x y"
        using order_transD [OF assms(1,2,4)] Cons.prems by simp
      then show False using True by (simp add: notAfter_def)
    qed
    then show ?thesis
      using True Cons by auto
  next
    case False
    then show ?thesis by simp
  qed
qed

lemma filter_arraySort:
  assumes "totalOrderOn S cmp" "set xs \<subseteq> S" "k \<in> S"
  shows "filter (tied cmp k) (arraySort cmp xs) = filter (tied cmp k) xs"
  using assms(2)
proof (induction xs)
  case Nil
  then show ?case by (simp add: arraySort_def)
next
  case (Cons x xs)
  have "filter (tied cmp k) (arraySort cmp (x # xs))
        = filter (tied cmp k) (x # arraySort cmp xs)"
    unfolding arraySort_Cons
    using Cons.prems by (intro filter_insertSorted [OF assms(1) _ _ assms(3)]) (simp_all add: set_arraySort)
  then show ?case using Cons by simp
qed

lemma stable_sorted_unique:
  assumes "totalOrderOn S cmp" "set ys \<subseteq> S"
      and "sorted_wrt (notAfter cmp) ys" "sorted_wrt (notAfter cmp) zs"
      and "mset ys = mset zs"
      and "\<forall>k\<in>S. filter (tied cmp k) ys = filter (tied cmp k) zs"
  shows "ys = zs"
  using assms(2-6)
proof (induction ys arbitrary: zs)
  case Nil
  then show ?case by simp
next
  case (Cons y ys)
  from Cons.prems(4) obtain z zs' where zs: "zs = z # zs'"
    by (cases zs) auto
  have yS: "y \<in> S" using Cons.prems(1) by simp
  have sets: "set (y # ys) = set zs" using Cons.prems(4) by (metis set_mset_mset)
  then have zS: "z \<in> S" using Cons.prems(1) zs by auto
  have zy: "notAfter cmp z y"
  proof (cases "y = z")
    case True
    then show ?thesis using order_reflD [OF assms(1) yS] by simp
  next
    case False
    then have "y \<in> set zs'" using sets zs by auto
    then show ?thesis using Cons.prems(3) zs by simp
  qed
  have yz: "notAfter cmp y z"
  proof (cases "y = z")
    case True
    then show ?thesis using order_reflD [OF assms(1) yS] by simp
  next
    case False
    then have "z \<in> set ys" using sets zs by auto
    then show ?thesis using Cons.prems(2) by simp
  qed
  have "filter (tied cmp y) (y # ys) = filter (tied cmp y) (z # zs')"
    using Cons.prems(5) yS zs by blast
  moreover have "tied cmp y y" "tied cmp y z"
    using order_reflD [OF assms(1) yS] yz zy by (simp_all add: tied_def)
  ultimately have eq: "y = z" by simp
  have "ys = zs'"
  proof (rule Cons.IH)
    show "set ys \<subseteq> S" using Cons.prems(1) by simp
    show "sorted_wrt (notAfter cmp) ys" using Cons.prems(2) by simp
    show "sorted_wrt (notAfter cmp) zs'" using Cons.prems(3) zs by simp
    show "mset ys = mset zs'" using Cons.prems(4) zs eq by simp
    show "\<forall>k\<in>S. filter (tied cmp k) ys = filter (tied cmp k) zs'"
    proof
      fix k assume "k \<in> S"
      then have "filter (tied cmp k) (y # ys) = filter (tied cmp k) (y # zs')"
        using Cons.prems(5) zs eq by simp
      then show "filter (tied cmp k) ys = filter (tied cmp k) zs'"
        by (cases "tied cmp k y") simp_all
    qed
  qed
  then show ?case using zs eq by simp
qed

lemma totalOrderOn_flip:
  assumes "totalOrderOn S cmp"
  shows "totalOrderOn S (\<lambda>a b. cmp b a)"
  unfolding totalOrderOn_def
proof (intro conjI ballI impI)
  fix x y
  assume "x \<in> S" "y \<in> S"
  then show "notAfter (\<lambda>a b. cmp b a) x y \<or> notAfter (\<lambda>a b. cmp b a) y x"
    using order_totalD [OF assms, of x y] by (auto simp: notAfter_def)
next
  fix x y z
  assume "x \<in> S" "y \<in> S" "z \<in> S"
    and "notAfter (\<lambda>a b. cmp b a) x y \<and> notAfter (\<lambda>a b. cmp b a) y z"
  then show "notAfter (\<lambda>a b. cmp b a) x z"
    using order_transD [OF assms, of z y x] by (simp add: notAfter_def)
qed

lemma tied_flip: "tied (\<lambda>a b. cmp b a) k = tied cmp k"
  unfolding tied_def notAfter_def by (rule ext) blast

lemma sort_flip_sort:
  assumes "totalOrderOn S cmp" "set xs \<subseteq> S"
  shows "arraySort cmp (arraySort (\<lambda>a b. cmp b a) (arraySort cmp xs)) = arraySort cmp xs"
proof (rule stable_sorted_unique [OF assms(1)])
  let ?A = "arraySort cmp xs"
  let ?D = "arraySort (\<lambda>a b. cmp b a) ?A"
  have DS: "set ?D \<subseteq> S" and AS: "set ?A \<subseteq> S"
    using assms(2) by (simp_all add: set_arraySort)
  show "set (arraySort cmp ?D) \<subseteq> S"
    using assms(2) by (simp add: set_arraySort)
  show "sorted_wrt (notAfter cmp) (arraySort cmp ?D)"
    by (rule sorted_arraySort [OF assms(1) DS])
  show "sorted_wrt (notAfter cmp) ?A"
    by (rule sorted_arraySort [OF assms])
  show "mset (arraySort cmp ?D) = mset ?A"
    by (simp add: mset_arraySort)
  show "\<forall>k\<in>S. filter (tied cmp k) (arraySort cmp ?D) = filter (tied cmp k) ?A"
  proof
    fix k assume k: "k \<in> S"
    have f: "totalOrderOn S (\<lambda>a b. cmp b a)"
      using assms(1) by (rule totalOrderOn_flip)
    have "filter (tied cmp k) (arraySort cmp ?D) = filter (tied cmp k) ?D"
      by (rule filter_arraySort [OF assms(1) DS k])
    also have "\<dots> = filter (tied (\<lambda>a b. cmp b a) k) ?D"
      by (simp only: tied_flip [of cmp])
    also have "\<dots> = filter (tied (\<lambda>a b. cmp b a) k) ?A"
      by (rule filter_arraySort [OF f AS k])
    also have "\<dots> = filter (tied cmp k) ?A"
      by (simp only: tied_flip [of cmp])
    finally show "filter (tied cmp k) (arraySort cmp ?D) = filter (tied cmp k) ?A" .
  qed
qed

lemma headerClick_result:
  assumes "i < length (headerRow g)" "thId (headerRow g ! i) = Some k"
      and "columnMap (columns g) k = Some col"
  shows "headerClick i g = Inr (clicked i k col g)"
  using assms by (simp add: headerClick_def sortNodes_def Let_def clicked_def)

lemma clicked_simps:
  "columns (clicked i k col g) = columns g"
  "length (headerRow (clicked i k col g)) = length (headerRow g)"
  "nodes (clicked i k col g)
     = arraySort (nodeCompare (columnComparator col) k (clickAscending g i)) (nodes g)"
  by (simp_all add: clicked_def)

lemma clicked_thId:
  "j < length (headerRow g) \<Longrightarrow> thId (headerRow (clicked i k col g) ! j) = thId (headerRow g ! j)"
  by (cases "i = j") (simp_all add: clicked_def)

lemma asc_neq_desc: "js ''ascending'' \<noteq> js ''descending''"
  by (simp add: js_def)

lemma clicked_toggles:
  assumes "i < length (headerRow g)" "thId (headerRow g ! i) = Some k"
  shows "clickAscending (clicked i k col g) i = (\<not> clickAscending g i)"
  using assms asc_neq_desc by (simp add: clicked_def clickAscending_def)

lemma clicked_clears:
  assumes "j < length (headerRow g)" "thId (headerRow g ! j) \<noteq> Some k"
  shows "thOrder (headerRow (clicked i k col g) ! j) = None"
    and "clickAscending (clicked i k col g) j"
  using assms by (cases "i = j"; simp add: clicked_def clickAscending_def)+

lemma nodeCompare_flip: "nodeCompare c k (\<not> d) = (\<lambda>a b. nodeCompare c k d b a)"
  by (intro ext) (simp add: nodeCompare_def Let_def)

lemma exampleGrid_name:
  "columnMap (columns exampleGrid) (js ''name'')
     = Some \<lparr>colId = js ''name'', title = js ''Name'', weight = Some 50, sortable = True,
             comparator = None\<rparr>"
  by (simp add: exampleGrid_def append'_def newDataGrid_def updateWeights_def infers_def
      inferWeights_def applyColumnWeights_def columnMap_def js_def Let_def split: option.splits)

lemma exampleGrid_header:
  "headerRow exampleGrid = [\<lparr>thId = Some (js ''name''), thOrder = None\<rparr>,
                            \<lparr>thId = Some (js ''site''), thOrder = None\<rparr>]"
  by (simp add: exampleGrid_def append'_def newDataGrid_def updateWeights_def infers_def
      inferWeights_def applyColumnWeights_def renderHeader_def Let_def split: option.splits)

lemma headerRow_newDataGrid: "headerRow (newDataGrid env cols) = renderHeader cols"
  by (simp add: newDataGrid_def updateWeights_def applyColumnWeights_def Let_def
      split: option.splits)

lemma fresh_header_ascending:
  assumes "j < length cols"
  shows "thOrder (headerRow (newDataGrid env cols) ! j) = None"
    and "clickAscending (newDataGrid env cols) j"
  using assms by (simp_all add: headerRow_newDataGrid renderHeader_def clickAscending_def)

text \<open>
  C6: the function \<open>sortNodes\<close> hands to \<open>sort\<close> compares two rows, for an ascending
  sort, as the comparator on the first row's value and the second's, and for a descending
  sort as the comparator on the second row's value and the first's. The comparator is the
  column's own when it has one and the natural-order comparator otherwise. The result is
  the comparator's with its arguments swapped, not its negation: for a comparator that is
  constantly 1 the two differ.
\<close>

theorem sortNodes_swaps_arguments:
  "nodeCompare c k True a b = c (rowGet a k) (rowGet b k)
   \<and> nodeCompare c k False a b = c (rowGet b k) (rowGet a k)
   \<and> (columnMap (columns g) k = Some col \<longrightarrow>
        sortNodes k isAscending g
          = Inr (g\<lparr>nodes := arraySort (\<lambda>a b. if isAscending
                                              then columnComparator col (rowGet a k) (rowGet b k)
                                              else columnComparator col (rowGet b k) (rowGet a k))
                                   (nodes g)\<rparr>))
   \<and> (comparator col = Some c \<longrightarrow> columnComparator col = c)
   \<and> (comparator col = None \<longrightarrow> columnComparator col = naturalOrderComparator)
   \<and> nodeCompare (\<lambda>x y. Finite 1) k False a b
        \<noteq> jsNegate ((\<lambda>x y. Finite 1) (rowGet a k) (rowGet b k))"
proof -
  have "nodeCompare (columnComparator col) k isAscending
        = (\<lambda>a b. if isAscending then columnComparator col (rowGet a k) (rowGet b k)
                  else columnComparator col (rowGet b k) (rowGet a k))"
    by (intro ext) (simp add: nodeCompare_def Let_def)
  then show ?thesis
    by (simp add: nodeCompare_def Let_def sortNodes_def columnComparator_def)
qed

theorem sortNodes_swaps_arguments_witness:
  "columnMap (columns exampleGrid) (js ''name'')
     = Some \<lparr>colId = js ''name'', title = js ''Name'', weight = Some 50, sortable = True,
             comparator = None\<rparr>
   \<and> comparator \<lparr>colId = js ''name'', title = js ''Name'', weight = Some 50, sortable = True,
             comparator = None\<rparr> = None
   \<and>  map_sum id nodes (sortNodes (js ''name'') False exampleGrid)
     = Inr [[(js ''name'', Str (js ''2'')), (js ''site'', Str (js ''a''))],
            [(js ''name'', Str (js ''1'')), (js ''site'', Str (js ''b''))]]"
proof -
  let ?col = "\<lparr>colId = js ''name'', title = js ''Name'', weight = Some 50, sortable = True,
             comparator = None\<rparr>"
  note t = sortNodes_swaps_arguments [where c = naturalOrderComparator and k = "js ''name''"
      and g = exampleGrid and col = ?col and isAscending = False]
  have h: "comparator ?col = None" by simp
  have c: "columnComparator ?col = naturalOrderComparator"
    using t h by blast
  have "sortNodes (js ''name'') False exampleGrid
          = Inr (exampleGrid\<lparr>nodes := arraySort (\<lambda>a b. if False
                 then columnComparator ?col (rowGet a (js ''name'')) (rowGet b (js ''name''))
                 else columnComparator ?col (rowGet b (js ''name'')) (rowGet a (js ''name'')))
                                   (nodes exampleGrid)\<rparr>)"
    using t exampleGrid_name by blast
  then have "map_sum id nodes (sortNodes (js ''name'') False exampleGrid)
     = Inr (arraySort (\<lambda>a b. naturalOrderComparator (rowGet b (js ''name'')) (rowGet a (js ''name'')))
                                   (nodes exampleGrid))"
    by (simp add: c)
  also have "\<dots> = Inr [[(js ''name'', Str (js ''2'')), (js ''site'', Str (js ''a''))],
            [(js ''name'', Str (js ''1'')), (js ''site'', Str (js ''b''))]]"
    by code_simp
  finally show ?thesis
    using exampleGrid_name h by simp
qed

text \<open>
  C7, as stated: clicking the same sortable header twice returns the rows to ascending
  order. On a grid whose rows were appended in ascending order, the first click sorts
  ascending and the second descending: after two clicks the rows are in descending order.
\<close>

theorem headerClick_twice_counterexample:
  "map_sum id nodes (headerClicks [0, 0] exampleGrid)
     = Inr [[(js ''name'', Str (js ''2'')), (js ''site'', Str (js ''a''))],
            [(js ''name'', Str (js ''1'')), (js ''site'', Str (js ''b''))]]
   \<and> jsPositive (naturalOrderComparator (Str (js ''2'')) (Str (js ''1'')))
   \<and> nodes exampleGrid
       = [[(js ''name'', Str (js ''1'')), (js ''site'', Str (js ''b''))],
          [(js ''name'', Str (js ''2'')), (js ''site'', Str (js ''a''))]]"
  by code_simp

text \<open>
  C7, amended: a click on a sortable header cell sorts ascending unless the cell's
  \<open>data-order\<close> is \<open>descending\<close>, and flips the direction of the next click on the same
  cell, so repeated clicks alternate; a cell without the attribute, as after rendering or
  after a click on another column, sorts ascending first. Hence the second click sorts in
  the direction opposite to the first, and the third in the direction of the first; for
  a comparator that orders the rows totally the rows after the third click are those
  after the first, each sorted in its direction. A click on the cell of one column
  removes \<open>data-order\<close> from the cells of every column with another id, so the next click
  on any of them sorts ascending.
\<close>

theorem headerClick_alternates:
  assumes "i < length (headerRow g)" "thId (headerRow g ! i) = Some k"
      and "columnMap (columns g) k = Some col"
  shows "\<exists>g1 g2 g3.
           headerClick i g = Inr g1 \<and> headerClick i g1 = Inr g2 \<and> headerClick i g2 = Inr g3
         \<and> nodes g1 = arraySort (nodeCompare (columnComparator col) k (clickAscending g i)) (nodes g)
         \<and> nodes g2 = arraySort (nodeCompare (columnComparator col) k (\<not> clickAscending g i)) (nodes g1)
         \<and> nodes g3 = arraySort (nodeCompare (columnComparator col) k (clickAscending g i)) (nodes g2)
         \<and> clickAscending g1 i = (\<not> clickAscending g i)
         \<and> clickAscending g2 i = clickAscending g i
         \<and> (totalOrderOn (set (nodes g)) (nodeCompare (columnComparator col) k True) \<longrightarrow>
               sorted_wrt (notAfter (nodeCompare (columnComparator col) k (clickAscending g i))) (nodes g1)
             \<and> sorted_wrt (notAfter (nodeCompare (columnComparator col) k (\<not> clickAscending g i))) (nodes g2)
             \<and> nodes g3 = nodes g1)
         \<and> (\<forall>j k' col'. j < length (headerRow g) \<and> thId (headerRow g ! j) = Some k' \<and> k' \<noteq> k
                 \<and> columnMap (columns g) k' = Some col' \<longrightarrow>
               thOrder (headerRow g1 ! j) = None
             \<and> (\<exists>g'. headerClick j g1 = Inr g'
                    \<and> nodes g' = arraySort (nodeCompare (columnComparator col') k' True) (nodes g1)
                    \<and> thOrder (headerRow g' ! i) = None \<and> clickAscending g' i))
         \<and> (\<forall>env cols j. j < length cols \<longrightarrow>
               thOrder (headerRow (newDataGrid env cols) ! j) = None
             \<and> clickAscending (newDataGrid env cols) j)"
proof -
  let ?c = "columnComparator col"
  let ?d = "clickAscending g i"
  define g1 where "g1 = clicked i k col g"
  define g2 where "g2 = clicked i k col g1"
  define g3 where "g3 = clicked i k col g2"
  have l1: "i < length (headerRow g1)" "thId (headerRow g1 ! i) = Some k"
    "columnMap (columns g1) k = Some col"
    using assms by (simp_all add: g1_def clicked_simps clicked_thId)
  have l2: "i < length (headerRow g2)" "thId (headerRow g2 ! i) = Some k"
    "columnMap (columns g2) k = Some col"
    using l1 by (simp_all add: g2_def clicked_simps clicked_thId)
  have c1: "headerClick i g = Inr g1" unfolding g1_def by (rule headerClick_result [OF assms])
  have c2: "headerClick i g1 = Inr g2" unfolding g2_def by (rule headerClick_result [OF l1])
  have c3: "headerClick i g2 = Inr g3" unfolding g3_def by (rule headerClick_result [OF l2])
  have d1: "clickAscending g1 i = (\<not> ?d)"
    unfolding g1_def by (rule clicked_toggles [OF assms(1,2)])
  have d2: "clickAscending g2 i = ?d"
    unfolding g2_def using clicked_toggles [OF l1(1,2), of col] d1 by simp
  have n1: "nodes g1 = arraySort (nodeCompare ?c k ?d) (nodes g)"
    by (simp add: g1_def clicked_simps)
  have n2: "nodes g2 = arraySort (nodeCompare ?c k (\<not> ?d)) (nodes g1)"
    by (simp add: g2_def clicked_simps d1)
  have n3: "nodes g3 = arraySort (nodeCompare ?c k ?d) (nodes g2)"
    by (simp add: g3_def clicked_simps d2)
  have sorted: "sorted_wrt (notAfter (nodeCompare ?c k ?d)) (nodes g1)
             \<and> sorted_wrt (notAfter (nodeCompare ?c k (\<not> ?d))) (nodes g2)
             \<and> nodes g3 = nodes g1"
    if tot: "totalOrderOn (set (nodes g)) (nodeCompare ?c k True)"
  proof -
    have f: "nodeCompare ?c k False = (\<lambda>a b. nodeCompare ?c k True b a)"
      using nodeCompare_flip [of ?c k True] by simp
    have totF: "totalOrderOn (set (nodes g)) (nodeCompare ?c k False)"
      unfolding f by (rule totalOrderOn_flip [OF tot])
    have totd: "totalOrderOn (set (nodes g)) (nodeCompare ?c k ?d)"
      using tot totF by (cases ?d) simp_all
    have totnd: "totalOrderOn (set (nodes g)) (nodeCompare ?c k (\<not> ?d))"
      using tot totF by (cases ?d) simp_all
    have s1: "sorted_wrt (notAfter (nodeCompare ?c k ?d)) (nodes g1)"
      unfolding n1 by (rule sorted_arraySort [OF totd]) simp
    have s2: "sorted_wrt (notAfter (nodeCompare ?c k (\<not> ?d))) (nodes g2)"
      unfolding n2 n1 by (rule sorted_arraySort [OF totnd]) (simp add: set_arraySort)
    have "nodes g3 = nodes g1"
      unfolding n3 n2 n1 nodeCompare_flip [of ?c k ?d]
      by (rule sort_flip_sort [OF totd]) simp
    with s1 s2 show ?thesis by simp
  qed
  have other: "thOrder (headerRow g1 ! j) = None
             \<and> (\<exists>g'. headerClick j g1 = Inr g'
                    \<and> nodes g' = arraySort (nodeCompare (columnComparator col') k' True) (nodes g1)
                    \<and> thOrder (headerRow g' ! i) = None \<and> clickAscending g' i)"
    if j: "j < length (headerRow g)" "thId (headerRow g ! j) = Some k'" "k' \<noteq> k"
      "columnMap (columns g) k' = Some col'" for j k' col'
  proof -
    have jk: "thId (headerRow g ! j) \<noteq> Some k" using j(2,3) by simp
    have o: "thOrder (headerRow g1 ! j) = None" "clickAscending g1 j"
      unfolding g1_def by (rule clicked_clears [OF j(1) jk])+
    have lj: "j < length (headerRow g1)" "thId (headerRow g1 ! j) = Some k'"
      "columnMap (columns g1) k' = Some col'"
      using j by (simp_all add: g1_def clicked_simps clicked_thId)
    have ik: "thId (headerRow g1 ! i) \<noteq> Some k'" using l1(2) j(3) by simp
    have "headerClick j g1 = Inr (clicked j k' col' g1)"
      by (rule headerClick_result [OF lj])
    moreover have "nodes (clicked j k' col' g1)
                   = arraySort (nodeCompare (columnComparator col') k' True) (nodes g1)"
      using o(2) by (simp add: clicked_simps)
    moreover have "thOrder (headerRow (clicked j k' col' g1) ! i) = None"
      "clickAscending (clicked j k' col' g1) i"
      by (rule clicked_clears [OF l1(1) ik])+
    ultimately show ?thesis using o(1) by blast
  qed
  have fresh: "\<forall>env cols j. j < length cols \<longrightarrow>
               thOrder (headerRow (newDataGrid env cols) ! j) = None
             \<and> clickAscending (newDataGrid env cols) j"
    by (simp add: fresh_header_ascending)
  have "headerClick i g = Inr g1 \<and> headerClick i g1 = Inr g2 \<and> headerClick i g2 = Inr g3
         \<and> nodes g1 = arraySort (nodeCompare ?c k ?d) (nodes g)
         \<and> nodes g2 = arraySort (nodeCompare ?c k (\<not> ?d)) (nodes g1)
         \<and> nodes g3 = arraySort (nodeCompare ?c k ?d) (nodes g2)
         \<and> clickAscending g1 i = (\<not> ?d)
         \<and> clickAscending g2 i = ?d
         \<and> (totalOrderOn (set (nodes g)) (nodeCompare ?c k True) \<longrightarrow>
               sorted_wrt (notAfter (nodeCompare ?c k ?d)) (nodes g1)
             \<and> sorted_wrt (notAfter (nodeCompare ?c k (\<not> ?d))) (nodes g2)
             \<and> nodes g3 = nodes g1)
         \<and> (\<forall>j k' col'. j < length (headerRow g) \<and> thId (headerRow g ! j) = Some k' \<and> k' \<noteq> k
                 \<and> columnMap (columns g) k' = Some col' \<longrightarrow>
               thOrder (headerRow g1 ! j) = None
             \<and> (\<exists>g'. headerClick j g1 = Inr g'
                    \<and> nodes g' = arraySort (nodeCompare (columnComparator col') k' True) (nodes g1)
                    \<and> thOrder (headerRow g' ! i) = None \<and> clickAscending g' i))"
    using c1 c2 c3 n1 n2 n3 d1 d2 sorted other by blast
  then show ?thesis
    using fresh by blast
qed

theorem headerClick_alternates_witness:
  "0 < length (headerRow exampleGrid)
   \<and> thId (headerRow exampleGrid ! 0) = Some (js ''name'')
   \<and> columnMap (columns exampleGrid) (js ''name'')
       = Some \<lparr>colId = js ''name'', title = js ''Name'', weight = Some 50, sortable = True,
               comparator = None\<rparr>
   \<and> totalOrderOn (set (nodes exampleGrid)) (nodeCompare naturalOrderComparator (js ''name'') True)
   \<and> (\<exists>g1 g2 g3.
         headerClick 0 exampleGrid = Inr g1 \<and> headerClick 0 g1 = Inr g2
       \<and> headerClick 0 g2 = Inr g3
       \<and> nodes g1 = [[(js ''name'', Str (js ''1'')), (js ''site'', Str (js ''b''))],
                      [(js ''name'', Str (js ''2'')), (js ''site'', Str (js ''a''))]]
       \<and> nodes g2 = [[(js ''name'', Str (js ''2'')), (js ''site'', Str (js ''a''))],
                      [(js ''name'', Str (js ''1'')), (js ''site'', Str (js ''b''))]]
       \<and> nodes g3 = nodes g1)"
proof -
  let ?col = "\<lparr>colId = js ''name'', title = js ''Name'', weight = Some 50, sortable = True,
               comparator = None\<rparr>"
  let ?k = "js ''name''"
  have h: "0 < length (headerRow exampleGrid)" "thId (headerRow exampleGrid ! 0) = Some ?k"
    by (simp_all add: exampleGrid_header)
  have c: "columnComparator ?col = naturalOrderComparator"
    by (simp add: columnComparator_def)
  have tot: "totalOrderOn (set (nodes exampleGrid)) (nodeCompare naturalOrderComparator ?k True)"
    by code_simp
  have d: "clickAscending exampleGrid 0"
    by (simp add: clickAscending_def exampleGrid_header)
  from headerClick_alternates [OF h exampleGrid_name, unfolded c]
  obtain g1 g2 g3 where
    clicks: "headerClick 0 exampleGrid = Inr g1" "headerClick 0 g1 = Inr g2"
      "headerClick 0 g2 = Inr g3"
    and n1: "nodes g1 = arraySort (nodeCompare naturalOrderComparator ?k
                                     (clickAscending exampleGrid 0)) (nodes exampleGrid)"
    and n2: "nodes g2 = arraySort (nodeCompare naturalOrderComparator ?k
                                     (\<not> clickAscending exampleGrid 0)) (nodes g1)"
    and ret: "totalOrderOn (set (nodes exampleGrid)) (nodeCompare naturalOrderComparator ?k True)
               \<longrightarrow> sorted_wrt (notAfter (nodeCompare naturalOrderComparator ?k
                                                (clickAscending exampleGrid 0))) (nodes g1)
                 \<and> sorted_wrt (notAfter (nodeCompare naturalOrderComparator ?k
                                                (\<not> clickAscending exampleGrid 0))) (nodes g2)
                 \<and> nodes g3 = nodes g1"
    by blast
  have "arraySort (nodeCompare naturalOrderComparator ?k True) (nodes exampleGrid)
        = [[(js ''name'', Str (js ''1'')), (js ''site'', Str (js ''b''))],
           [(js ''name'', Str (js ''2'')), (js ''site'', Str (js ''a''))]]"
    by code_simp
  then have v1: "nodes g1 = [[(js ''name'', Str (js ''1'')), (js ''site'', Str (js ''b''))],
                             [(js ''name'', Str (js ''2'')), (js ''site'', Str (js ''a''))]]"
    using n1 d by simp
  have "arraySort (nodeCompare naturalOrderComparator ?k False)
          [[(js ''name'', Str (js ''1'')), (js ''site'', Str (js ''b''))],
           [(js ''name'', Str (js ''2'')), (js ''site'', Str (js ''a''))]]
        = [[(js ''name'', Str (js ''2'')), (js ''site'', Str (js ''a''))],
           [(js ''name'', Str (js ''1'')), (js ''site'', Str (js ''b''))]]"
    by code_simp
  then have v2: "nodes g2 = [[(js ''name'', Str (js ''2'')), (js ''site'', Str (js ''a''))],
                             [(js ''name'', Str (js ''1'')), (js ''site'', Str (js ''b''))]]"
    using n2 d v1 by simp
  have v3: "nodes g3 = nodes g1"
    using ret tot by blast
  show ?thesis
    using h exampleGrid_name tot clicks v1 v2 v3 by blast
qed

section \<open>Properties of the menu\<close>

text \<open>
  C8: the left coordinate \<open>positionContent\<close> sets is \<open>x - width - parentWidth\<close> when the
  room to the right, \<open>winWidth - x\<close>, is less than the computed width and less than
  \<open>x - parentWidth\<close>, and \<open>x\<close> otherwise, where \<open>parentWidth\<close> is 0 without a parent and
  the computed width is the smaller of the window's width and the container's width plus
  a scrollbar when the content is taller than the window. Unless the width and the
  parent's width are both 0, the left coordinate is \<open>x - width - parentWidth\<close> exactly in
  that case.
\<close>

theorem positionContent_left:
  "cssLeft (positionContent env x y parent)
     = (if innerWidth env - x < cssWidth (positionContent env x y parent)
           \<and> x - (case parent of None \<Rightarrow> 0 | Some w \<Rightarrow> w) > innerWidth env - x
        then x - cssWidth (positionContent env x y parent) - (case parent of None \<Rightarrow> 0 | Some w \<Rightarrow> w)
        else x)
   \<and> cssWidth (positionContent env x y parent)
     = min (innerWidth env)
         (contentWidth env + (if innerHeight env < contentHeight env then scrollbarWidth env else 0))
   \<and> (cssWidth (positionContent env x y parent) + (case parent of None \<Rightarrow> 0 | Some w \<Rightarrow> w) \<noteq> 0 \<longrightarrow>
        (cssLeft (positionContent env x y parent)
           = x - cssWidth (positionContent env x y parent) - (case parent of None \<Rightarrow> 0 | Some w \<Rightarrow> w)
         \<longleftrightarrow> innerWidth env - x < cssWidth (positionContent env x y parent)
             \<and> x - (case parent of None \<Rightarrow> 0 | Some w \<Rightarrow> w) > innerWidth env - x))"
  by (auto simp: positionContent_def Let_def)

theorem positionContent_left_witness:
  "(let env = \<lparr>innerWidth = 1000, innerHeight = 800, scrollbarWidth = 15,
               contentWidth = 200, contentHeight = 300\<rparr>
    in cssWidth (positionContent env 950 100 (Some 180)) + 180 \<noteq> 0
       \<and> innerWidth env - 950 < cssWidth (positionContent env 950 100 (Some 180))
       \<and> 950 - 180 > innerWidth env - 950
       \<and> cssWidth (positionContent env 950 100 (Some 180)) = 200
       \<and> cssLeft (positionContent env 950 100 (Some 180)) = 950 - 200 - 180
       \<and> cssLeft (positionContent env 100 100 None) = 100)"
proof -
  let ?env = "\<lparr>innerWidth = 1000, innerHeight = 800, scrollbarWidth = 15,
               contentWidth = 200, contentHeight = 300\<rparr>"
  note t = positionContent_left [of ?env 950 100 "Some 180"]
  note u = positionContent_left [of ?env 100 100 None]
  have w: "cssWidth (positionContent ?env 950 100 (Some 180)) = 200"
    using t by simp
  have w': "cssWidth (positionContent ?env 100 100 None) = 200"
    using u by simp
  have l: "cssLeft (positionContent ?env 950 100 (Some 180)) = 950 - 200 - 180"
    using t unfolding w by simp
  have l': "cssLeft (positionContent ?env 100 100 None) = 100"
    using u unfolding w' by simp
  show ?thesis
    unfolding Let_def using w l l' by simp
qed

lemma hide_hideSubMenu:
  "hide m h = hideSubMenu m (h(m := (h m)\<lparr>attached := False\<rparr>))"
  by (subst hide.simps) (simp add: hideSubMenu_def Let_def)

lemma chain_cong:
  "\<forall>x. subMenu (h' x) = subMenu (h x) \<Longrightarrow> subMenuChain n h' m = subMenuChain n h m"
  by (induction n arbitrary: m) (simp_all split: option.splits)

lemma hide_spec:
  "subMenuChain n h m \<Longrightarrow>
   \<exists>h'. hide m h = Some h' \<and> hidden h h' \<and> \<not> attached (h' m) \<and> subMenu (h' m) = None"
proof (induction n arbitrary: m h)
  case 0
  then show ?case
    by (subst hide.simps) (simp add: hidden_def)
next
  case (Suc n)
  then obtain s where s: "subMenu (h m) = Some s" and c: "subMenuChain n h s"
    by (auto split: option.splits)
  let ?h1 = "h(m := (h m)\<lparr>attached := False\<rparr>)"
  have "subMenuChain n ?h1 s"
    using c chain_cong [of ?h1 h n s] by simp
  from Suc.IH [OF this] obtain h2 where
    h2: "hide s ?h1 = Some h2" "hidden ?h1 h2" "\<not> attached (h2 s)" "subMenu (h2 s) = None"
    by blast
  let ?h' = "h2(m := (h2 m)\<lparr>subMenu := None\<rparr>)"
  have run: "hide m h = Some ?h'"
    using s h2(1) by (subst hide.simps) simp
  have a2: "\<not> attached (h2 m)"
    using h2(2) by (auto simp: hidden_def)
  have "hidden h ?h'"
    unfolding hidden_def
  proof (intro conjI allI)
    fix x
    show "menuItems (?h' x) = menuItems (h x)"
      using h2(2) by (auto simp: hidden_def)
    show "attached (?h' x) \<longrightarrow> attached (h x)"
      using h2(2) a2 by (cases "x = m") (auto simp: hidden_def split: if_splits)
    show "subMenu (?h' x) = subMenu (h x)
          \<or> (subMenu (?h' x) = None \<and> (\<forall>s. subMenu (h x) = Some s \<longrightarrow> \<not> attached (?h' s)))"
    proof (cases "x = m")
      case True
      then show ?thesis using s h2(3) a2 by auto
    next
      case False
      have "subMenu (h2 x) = subMenu (?h1 x)
          \<or> (subMenu (h2 x) = None \<and> (\<forall>s. subMenu (?h1 x) = Some s \<longrightarrow> \<not> attached (h2 s)))"
        using h2(2) unfolding hidden_def by blast
      then show ?thesis using False by auto
    qed
  qed
  then show ?case using run a2 by auto
qed

lemma hidden_refl: "hidden h h"
  by (simp add: hidden_def)

lemma hideSubMenu_spec:
  assumes "chains h"
  shows "\<exists>h'. hideSubMenu m h = Some h' \<and> hidden h h' \<and> subMenu (h' m) = None
              \<and> (\<forall>s. subMenu (h m) = Some s \<longrightarrow> \<not> attached (h' s))"
proof (cases "subMenu (h m)")
  case None
  then show ?thesis by (simp add: hideSubMenu_def hidden_refl)
next
  case (Some s)
  obtain n where "subMenuChain n h s" using assms by (auto simp: chains_def)
  from hide_spec [OF this] obtain h2 where
    h2: "hide s h = Some h2" "hidden h h2" "\<not> attached (h2 s)"
    by blast
  let ?h' = "h2(m := (h2 m)\<lparr>subMenu := None\<rparr>)"
  have "hidden h ?h'"
    unfolding hidden_def
  proof (intro conjI allI)
    fix x
    show "menuItems (?h' x) = menuItems (h x)"
      using h2(2) by (auto simp: hidden_def)
    show "attached (?h' x) \<longrightarrow> attached (h x)"
      using h2(2) by (auto simp: hidden_def)
    show "subMenu (?h' x) = subMenu (h x)
          \<or> (subMenu (?h' x) = None \<and> (\<forall>s. subMenu (h x) = Some s \<longrightarrow> \<not> attached (?h' s)))"
    proof (cases "x = m")
      case True
      then show ?thesis using Some h2(3) by auto
    next
      case False
      have "subMenu (h2 x) = subMenu (h x)
          \<or> (subMenu (h2 x) = None \<and> (\<forall>s. subMenu (h x) = Some s \<longrightarrow> \<not> attached (h2 s)))"
        using h2(2) unfolding hidden_def by blast
      then show ?thesis using False by auto
    qed
  qed
  then show ?thesis
    using Some h2 by (auto simp: hideSubMenu_def)
qed

lemma isChild_cong: "\<forall>x. menuItems (h' x) = menuItems (h x) \<Longrightarrow> isChild h' = isChild h"
  by (intro ext) (simp add: isChild_def)

lemma hidden_isChild: "hidden h h' \<Longrightarrow> isChild h' = isChild h"
  by (rule isChild_cong) (simp add: hidden_def)

lemma hidden_wellFormed: "hidden h h' \<Longrightarrow> wellFormed h' = wellFormed h"
  by (simp add: wellFormed_def hidden_isChild)

lemma hidden_oneSubmenu:
  assumes "hidden h h'" "oneSubmenu h"
  shows "oneSubmenu h'"
  unfolding oneSubmenu_def
proof (intro allI impI)
  fix m s
  assume a: "isChild h' m s \<and> attached (h' s)"
  then have "isChild h m s" "attached (h s)"
    using assms(1) hidden_isChild [OF assms(1)] by (auto simp: hidden_def)
  then have sm: "subMenu (h m) = Some s"
    using assms(2) by (simp add: oneSubmenu_def)
  have "subMenu (h' m) = subMenu (h m)
        \<or> (subMenu (h' m) = None \<and> (\<forall>s. subMenu (h m) = Some s \<longrightarrow> \<not> attached (h' s)))"
    using assms(1) unfolding hidden_def by blast
  then show "subMenu (h' m) = Some s"
    using sm a by auto
qed

lemma chain_shrinks:
  assumes "\<forall>x. subMenu (h' x) = subMenu (h x) \<or> subMenu (h' x) = None"
  shows "subMenuChain n h y \<Longrightarrow> \<exists>n'. subMenuChain n' h' y"
proof (induction n arbitrary: y)
  case 0
  then have "subMenu (h' y) = None" using assms by (metis subMenuChain.simps(1))
  then show ?case by (intro exI [of _ 0]) simp
next
  case (Suc n)
  then obtain z where z: "subMenu (h y) = Some z" "subMenuChain n h z"
    by (auto split: option.splits)
  from Suc.IH [OF z(2)] obtain n' where n': "subMenuChain n' h' z" by blast
  show ?case
  proof (cases "subMenu (h' y)")
    case None
    then show ?thesis by (intro exI [of _ 0]) simp
  next
    case (Some w)
    then have "w = z" using assms z(1) by (metis option.distinct(1) option.inject)
    then show ?thesis using Some n' by (intro exI [of _ "Suc n'"]) simp
  qed
qed

lemma hidden_chains:
  assumes "hidden h h'" "chains h"
  shows "chains h'"
proof -
  have "\<forall>x. subMenu (h' x) = subMenu (h x) \<or> subMenu (h' x) = None"
    using assms(1) by (auto simp: hidden_def)
  then show ?thesis
    using assms(2) chain_shrinks unfolding chains_def by blast
qed

lemma chains_link:
  assumes "chains h" "subMenu (h s) = None" "s \<noteq> m"
      and "\<forall>x. x \<noteq> m \<longrightarrow> subMenu (h' x) = subMenu (h x)" "subMenu (h' m) = Some s"
  shows "chains h'"
proof -
  have m1: "subMenuChain (Suc 0) h' m"
    using assms(2,3,4,5) by simp
  have "\<exists>n'. subMenuChain n' h' y" if "subMenuChain n h y" for n y
    using that
  proof (induction n arbitrary: y)
    case 0
    show ?case
    proof (cases "y = m")
      case True
      then show ?thesis using m1 by blast
    next
      case False
      then have "subMenuChain 0 h' y" using 0 assms(4) by simp
      then show ?thesis by blast
    qed
  next
    case (Suc n)
    show ?case
    proof (cases "y = m")
      case True
      then show ?thesis using m1 by blast
    next
      case False
      from Suc.prems obtain z where z: "subMenu (h y) = Some z" "subMenuChain n h z"
        by (auto split: option.splits)
      from Suc.IH [OF z(2)] obtain n' where "subMenuChain n' h' z" by blast
      then have "subMenuChain (Suc n') h' y" using False z(1) assms(4) by simp
      then show ?thesis by blast
    qed
  qed
  then show ?thesis using assms(1) unfolding chains_def by blast
qed

lemma sameItems_refl: "sameItems h h"
  by (simp add: sameItems_def)

lemma sameItems_trans: "sameItems h h1 \<Longrightarrow> sameItems h1 h2 \<Longrightarrow> sameItems h h2"
  by (simp add: sameItems_def)

lemma hidden_sameItems: "hidden h h' \<Longrightarrow> sameItems h h'"
  by (simp add: hidden_def sameItems_def)

lemma sameItems_isChild: "sameItems h h' \<Longrightarrow> isChild h' = isChild h"
  by (rule isChild_cong) (simp add: sameItems_def)

lemma sameItems_userEvent: "sameItems h h' \<Longrightarrow> userEvent h' e = userEvent h e"
  by (simp add: userEvent_def sameItems_isChild split: event.splits)

lemma hidden_menuInv: "hidden h h' \<Longrightarrow> menuInv h \<Longrightarrow> menuInv h'"
  by (simp add: menuInv_def hidden_wellFormed hidden_chains hidden_oneSubmenu)

lemma fresh_menuInv: "fresh h \<Longrightarrow> wellFormed h \<Longrightarrow> menuInv h"
proof -
  assume f: "fresh h" and w: "wellFormed h"
  have "subMenuChain 0 h m" for m using f by (simp add: fresh_def)
  then have "chains h" unfolding chains_def by blast
  moreover have "oneSubmenu h" using f by (simp add: oneSubmenu_def fresh_def)
  ultimately show ?thesis using w by (simp add: menuInv_def)
qed

lemma hide_step:
  assumes "menuInv h"
  shows "\<exists>h'. hide m h = Some h' \<and> hidden h h' \<and> menuInv h' \<and> \<not> attached (h' m)
              \<and> subMenu (h' m) = None"
proof -
  obtain n where "subMenuChain n h m" using assms by (auto simp: menuInv_def chains_def)
  from hide_spec [OF this] show ?thesis
    using hidden_menuInv [OF _ assms] by blast
qed

lemma show_step:
  assumes inv: "menuInv h" and root: "\<forall>p. \<not> isChild h p m"
  shows "\<exists>h'. show' m h = Some h' \<and> sameItems h h' \<and> menuInv h' \<and> attached (h' m)"
proof -
  from hide_step [OF inv, of m] obtain h1 where
    h1: "hide m h = Some h1" "hidden h h1" "menuInv h1" by blast
  let ?h' = "h1(m := (h1 m)\<lparr>attached := True\<rparr>)"
  have run: "show' m h = Some ?h'" using h1(1) by (simp add: show'_def)
  have items: "sameItems h1 ?h'" by (simp add: sameItems_def)
  have ch: "isChild ?h' = isChild h" 
    using sameItems_isChild [OF items] hidden_isChild [OF h1(2)] by simp
  have wf: "wellFormed ?h'"
    using h1(3) sameItems_isChild [OF items] by (simp add: menuInv_def wellFormed_def)
  have "subMenuChain n ?h' x = subMenuChain n h1 x" for n x
    by (rule chain_cong) simp
  then have c: "chains ?h'" using h1(3) by (simp add: menuInv_def chains_def)
  have o: "oneSubmenu ?h'"
    unfolding oneSubmenu_def
  proof (intro allI impI)
    fix p s
    assume a: "isChild ?h' p s \<and> attached (?h' s)"
    then have "s \<noteq> m" using root ch by auto
    then have "isChild h1 p s \<and> attached (h1 s)"
      using a sameItems_isChild [OF items] by simp
    then have "subMenu (h1 p) = Some s" using h1(3) by (simp add: menuInv_def oneSubmenu_def)
    then show "subMenu (?h' p) = Some s" by auto
  qed
  show ?thesis
    using run wf c o sameItems_trans [OF hidden_sameItems [OF h1(2)] items]
    by (simp add: menuInv_def)
qed

lemma showSubMenu_step:
  assumes inv: "menuInv h" and child: "isChild h m s"
      and sub: "subMenu (h m) = None \<or> subMenu (h m) = Some s"
  shows "\<exists>h'. showSubMenu m s h = Some h' \<and> sameItems h h' \<and> menuInv h' \<and> attached (h' s)
              \<and> subMenu (h' m) = Some s \<and> (\<forall>x. attached (h' x) \<longrightarrow> x = s \<or> attached (h x))"
proof -
  from hide_step [OF inv, of s] obtain h1 where
    h1: "hide s h = Some h1" "hidden h h1" "menuInv h1" "subMenu (h1 s) = None" by blast
  have sm: "s \<noteq> m" using inv child by (auto simp: menuInv_def wellFormed_def)
  let ?h2 = "h1(s := (h1 s)\<lparr>attached := True\<rparr>)"
  let ?h' = "?h2(m := (?h2 m)\<lparr>subMenu := Some s\<rparr>)"
  have run: "showSubMenu m s h = Some ?h'"
    using h1(1) by (simp add: showSubMenu_def show'_def)
  have items: "sameItems h1 ?h'" by (simp add: sameItems_def)
  have ch1: "isChild h1 = isChild h" by (rule hidden_isChild [OF h1(2)])
  have ch: "isChild ?h' = isChild h1" by (rule sameItems_isChild [OF items])
  have wf: "wellFormed ?h'"
    using h1(3) ch by (simp add: menuInv_def wellFormed_def)
  have c: "chains ?h'"
  proof (rule chains_link [of h1 s m])
    show "chains h1" using h1(3) by (simp add: menuInv_def)
    show "subMenu (h1 s) = None" by (rule h1(4))
    show "s \<noteq> m" by (rule sm)
    show "\<forall>x. x \<noteq> m \<longrightarrow> subMenu (?h' x) = subMenu (h1 x)" by simp
    show "subMenu (?h' m) = Some s" by simp
  qed
  have sub1: "subMenu (h1 m) = None \<or> subMenu (h1 m) = Some s"
    using sub h1(2) unfolding hidden_def by metis
  have o: "oneSubmenu ?h'"
    unfolding oneSubmenu_def
  proof (intro allI impI)
    fix p c
    assume a: "isChild ?h' p c \<and> attached (?h' c)"
    then have pc: "isChild h p c" using ch ch1 by simp
    show "subMenu (?h' p) = Some c"
    proof (cases "c = s")
      case True
      then have "p = m" using pc child inv by (auto simp: menuInv_def wellFormed_def)
      then show ?thesis using True by simp
    next
      case False
      then have "attached (h1 c)" using a by (simp split: if_splits)
      then have p1: "subMenu (h1 p) = Some c"
        using pc ch1 h1(3) by (simp add: menuInv_def oneSubmenu_def)
      then have "p \<noteq> m" using sub1 False by auto
      then show ?thesis using p1 by auto
    qed
  qed
  have att: "\<forall>x. attached (?h' x) \<longrightarrow> x = s \<or> attached (h x)"
    using h1(2) by (auto simp: hidden_def split: if_splits)
  show ?thesis
    using run wf c o att sm sameItems_trans [OF hidden_sameItems [OF h1(2)] items]
    by (simp add: menuInv_def)
qed

lemma highlight_fields:
  "menuItems (highlight m el h x) = menuItems (h x)"
  "subMenu (highlight m el h x) = subMenu (h x)"
  "attached (highlight m el h x) = attached (h x)"
  by (simp_all add: highlight_def)

lemma highlight_menuInv: "menuInv (highlight m el h) = menuInv h"
proof -
  let ?h = "highlight m el h"
  have i: "isChild ?h = isChild h"
    by (rule isChild_cong) (simp add: highlight_fields)
  have "subMenuChain n ?h x = subMenuChain n h x" for n x
    by (rule chain_cong) (simp add: highlight_fields)
  then have c: "chains ?h = chains h" by (simp add: chains_def)
  have "oneSubmenu ?h = oneSubmenu h"
    by (simp add: oneSubmenu_def i highlight_fields)
  then show ?thesis by (simp add: menuInv_def wellFormed_def i c)
qed

lemma hideAll_menuInv: "menuInv h \<Longrightarrow> menuInv (hideAll h)"
proof -
  assume inv: "menuInv h"
  have i: "isChild (hideAll h) = isChild h"
    by (rule isChild_cong) (simp add: hideAll_def)
  have "subMenuChain n (hideAll h) x = subMenuChain n h x" for n x
    by (rule chain_cong) (simp add: hideAll_def)
  then have "chains (hideAll h)" using inv by (simp add: menuInv_def chains_def)
  moreover have "oneSubmenu (hideAll h)" by (simp add: oneSubmenu_def hideAll_def)
  ultimately show ?thesis using inv by (simp add: menuInv_def wellFormed_def i)
qed

lemma item_isChild:
  assumes "hasHandlers h m i" "submenu (menuItems (h m) ! i) = Some s"
  shows "isChild h m s"
  using assms unfolding hasHandlers_def isChild_def by (metis nth_mem)

lemma mouseover_submenu:
  assumes inv: "menuInv h" and hh: "hasHandlers h m i"
      and s: "submenu (menuItems (h m) ! i) = Some s"
  shows "\<exists>h1 h2. (if Some s \<noteq> subMenu (h m) then hideSubMenu m (highlight m (Some i) h)
                 else Some (highlight m (Some i) h)) = Some h1
               \<and> hidden (highlight m (Some i) h) h1
               \<and> (Some s \<noteq> subMenu (h m) \<longrightarrow>
                    subMenu (h1 m) = None \<and> (\<forall>t. subMenu (h m) = Some t \<longrightarrow> \<not> attached (h1 t)))
               \<and> showSubMenu m s h1 = Some h2 \<and> mouseover m i h = Some h2
               \<and> sameItems h h2 \<and> menuInv h2 \<and> attached (h2 s) \<and> subMenu (h2 m) = Some s
               \<and> (\<forall>x. attached (h2 x) \<longrightarrow> x = s \<or> attached (h1 x))"
proof -
  let ?h0 = "highlight m (Some i) h"
  have inv0: "menuInv ?h0" using inv by (simp add: highlight_menuInv)
  have items0: "sameItems h ?h0" by (simp add: sameItems_def highlight_fields)
  have "\<exists>h1. (if Some s \<noteq> subMenu (h m) then hideSubMenu m ?h0 else Some ?h0) = Some h1
            \<and> hidden ?h0 h1
            \<and> (Some s \<noteq> subMenu (h m) \<longrightarrow>
                 subMenu (h1 m) = None \<and> (\<forall>t. subMenu (h m) = Some t \<longrightarrow> \<not> attached (h1 t)))
            \<and> (subMenu (h1 m) = None \<or> subMenu (h1 m) = Some s)"
  proof (cases "Some s \<noteq> subMenu (h m)")
    case True
    from hideSubMenu_spec [of ?h0 m] inv0 obtain h1 where
      "hideSubMenu m ?h0 = Some h1" "hidden ?h0 h1" "subMenu (h1 m) = None"
      "\<forall>t. subMenu (?h0 m) = Some t \<longrightarrow> \<not> attached (h1 t)"
      by (auto simp: menuInv_def)
    then show ?thesis using True by (auto simp: highlight_fields)
  next
    case False
    then show ?thesis by (auto simp: hidden_refl highlight_fields)
  qed
  then obtain h1 where
    h1: "(if Some s \<noteq> subMenu (h m) then hideSubMenu m ?h0 else Some ?h0) = Some h1"
      "hidden ?h0 h1"
      "Some s \<noteq> subMenu (h m) \<longrightarrow>
         subMenu (h1 m) = None \<and> (\<forall>t. subMenu (h m) = Some t \<longrightarrow> \<not> attached (h1 t))"
      "subMenu (h1 m) = None \<or> subMenu (h1 m) = Some s"
    by blast
  have inv1: "menuInv h1" by (rule hidden_menuInv [OF h1(2) inv0])
  have items1: "sameItems h h1"
    by (rule sameItems_trans [OF items0 hidden_sameItems [OF h1(2)]])
  have child1: "isChild h1 m s"
    using item_isChild [OF hh s] sameItems_isChild [OF items1] by simp
  from showSubMenu_step [OF inv1 child1 h1(4)] obtain h2 where
    h2: "showSubMenu m s h1 = Some h2" "sameItems h1 h2" "menuInv h2" "attached (h2 s)"
      "subMenu (h2 m) = Some s" "\<forall>x. attached (h2 x) \<longrightarrow> x = s \<or> attached (h1 x)"
    by blast
  have "mouseover m i h = Some h2"
    using hh s h1(1) h2(1) by (simp add: mouseover_def Let_def highlight_fields)
  then show ?thesis
    using h1 h2 sameItems_trans [OF items1 h2(2)] by blast
qed

lemma mouseover_plain:
  assumes inv: "menuInv h" and hh: "hasHandlers h m i"
      and s: "submenu (menuItems (h m) ! i) = None"
  shows "\<exists>h1. mouseover m i h = Some h1 \<and> sameItems h h1 \<and> menuInv h1
             \<and> subMenu (h1 m) = None \<and> (\<forall>t. subMenu (h m) = Some t \<longrightarrow> \<not> attached (h1 t))"
proof -
  let ?h0 = "highlight m (Some i) h"
  have inv0: "menuInv ?h0" using inv by (simp add: highlight_menuInv)
  have items0: "sameItems h ?h0" by (simp add: sameItems_def highlight_fields)
  from hideSubMenu_spec [of ?h0 m] inv0 obtain h1 where
    h1: "hideSubMenu m ?h0 = Some h1" "hidden ?h0 h1" "subMenu (h1 m) = None"
      "\<forall>t. subMenu (?h0 m) = Some t \<longrightarrow> \<not> attached (h1 t)"
    by (auto simp: menuInv_def)
  have "mouseover m i h = Some h1"
    using hh s h1(1) by (simp add: mouseover_def Let_def)
  then show ?thesis
    using h1 hidden_menuInv [OF h1(2) inv0]
      sameItems_trans [OF items0 hidden_sameItems [OF h1(2)]]
    by (auto simp: highlight_fields)
qed

lemma mouseover_step:
  assumes "menuInv h"
  shows "\<exists>h'. mouseover m i h = Some h' \<and> sameItems h h' \<and> menuInv h'"
proof (cases "hasHandlers h m i")
  case False
  then show ?thesis using assms by (simp add: mouseover_def sameItems_refl)
next
  case True
  show ?thesis
  proof (cases "submenu (menuItems (h m) ! i)")
    case None
    from mouseover_plain [OF assms True None] show ?thesis by blast
  next
    case (Some s)
    from mouseover_submenu [OF assms True Some] show ?thesis by blast
  qed
qed

lemma step_menuInv:
  assumes "menuInv h" "userEvent h e"
  shows "\<exists>h'. step e h = Some h' \<and> sameItems h h' \<and> menuInv h'"
proof (cases e)
  case (Show m)
  then show ?thesis using show_step [OF assms(1), of m] assms(2) by (auto simp: userEvent_def)
next
  case (Hide m)
  then show ?thesis using hide_step [OF assms(1), of m] hidden_sameItems by auto
next
  case HideAll
  then show ?thesis using hideAll_menuInv [OF assms(1)] by (simp add: sameItems_def hideAll_def)
next
  case (MouseOver m i)
  then show ?thesis using mouseover_step [OF assms(1), of m i] by simp
next
  case (MouseLeave m i)
  then show ?thesis
    using assms(1) by (simp add: mouseleave_def highlight_menuInv sameItems_def highlight_fields)
next
  case (Click m i)
  then show ?thesis
    using assms(1) hideAll_menuInv [OF assms(1)]
    by (simp add: click'_def sameItems_def hideAll_def)
qed

lemma run_menuInv:
  assumes "menuInv h" "list_all (userEvent h) es" "run es h = Some h'"
  shows "sameItems h h' \<and> menuInv h'"
  using assms
proof (induction es arbitrary: h)
  case Nil
  then show ?case by (simp add: sameItems_refl)
next
  case (Cons e es)
  from step_menuInv [of h e] Cons.prems obtain h1 where
    h1: "step e h = Some h1" "sameItems h h1" "menuInv h1" by auto
  have "list_all (userEvent h1) es"
    using Cons.prems(2) sameItems_userEvent [OF h1(2)] by (simp add: list_all_iff)
  moreover have "run es h1 = Some h'" using Cons.prems(3) h1(1) by simp
  ultimately have "sameItems h1 h' \<and> menuInv h'" using Cons.IH [OF h1(3)] by blast
  then show ?case using sameItems_trans [OF h1(2)] by blast
qed

lemma run_append: "run (es @ [e]) h = Option.bind (run es h) (step e)"
  by (induction es arbitrary: h) (simp_all cong: Option.bind_cong)

lemma reachable_menuInv:
  assumes "reachable h"
  shows "menuInv h"
  using assms run_menuInv fresh_menuInv unfolding reachable_def by blast

lemma reachable_step:
  assumes "reachable h" "userEvent h e"
  shows "\<exists>h'. step e h = Some h' \<and> reachable h'"
proof -
  from assms(1) obtain h0 es where
    r: "fresh h0" "wellFormed h0" "list_all (userEvent h0) es" "run es h0 = Some h"
    unfolding reachable_def by blast
  have i0: "menuInv h0" by (rule fresh_menuInv [OF r(1,2)])
  have same: "sameItems h0 h" "menuInv h"
    using run_menuInv [OF i0 r(3,4)] by simp_all
  from step_menuInv [OF same(2) assms(2)] obtain h' where h': "step e h = Some h'" by blast
  have "list_all (userEvent h0) (es @ [e])"
    using r(3) assms(2) sameItems_userEvent [OF same(1)] by simp
  moreover have "run (es @ [e]) h0 = Some h'"
    using r(4) h' by (simp add: run_append)
  ultimately have "reachable h'" using r(1,2) unfolding reachable_def by blast
  then show ?thesis using h' by blast
qed

lemma exampleMenus_isChild: "isChild exampleMenus m s \<longleftrightarrow> m = 0 \<and> (s = 1 \<or> s = 2)"
  by (auto simp: isChild_def exampleMenus_def)

lemma exampleMenus_fresh: "fresh exampleMenus"
  by (auto simp: fresh_def exampleMenus_def)

lemma exampleMenus_wellFormed: "wellFormed exampleMenus"
  by (auto simp: wellFormed_def exampleMenus_isChild)

lemma exampleMenus_events: "list_all (userEvent exampleMenus) [Show 0, MouseOver 0 0]"
  by (simp add: userEvent_def exampleMenus_isChild)

lemma exampleMenus_run:
  "\<exists>h. run [Show 0, MouseOver 0 0] exampleMenus = Some h
       \<and> hasHandlers h 0 1 \<and> submenu (menuItems (h 0) ! 1) = Some 2
       \<and> hasHandlers h 0 2 \<and> submenu (menuItems (h 0) ! 2) = None
       \<and> subMenu (h 0) = Some 1 \<and> attached (h 1)"
  by (simp add: exampleMenus_def show'_def hide.simps mouseover_def hasHandlers_def
      highlight_def hideSubMenu_def showSubMenu_def Let_def)



end
